theory Spec2Isabelle
  imports Main "HOL-Library.Char_ord" "HOL-Library.List_Lexorder" "HOL-Library.Sublist"
begin

section \<open>Walkman playlist creator: a model of \<^verbatim>\<open>walkman_playlists_app.py\<close>\<close>

text \<open>
  The program is a single widget class whose slots mutate three pieces of state (root
  folder, library, playlist) and talk to the user through modal dialogs and to the
  file system through \<^verbatim>\<open>os.walk\<close> and \<^verbatim>\<open>open\<close>.  Each slot is
  modelled as a function from the application state (and the replies the user gives to
  the dialogs the slot opens) to the new state and the list of dialogs shown.

  A Python \<^verbatim>\<open>str\<close> is modelled as a \<^typ>\<open>string\<close>: the list of its code points,
  for text whose code points are below 256.  Ordering of strings is the lexicographic
  ordering of code points, as in Python.
\<close>

subsection \<open>Python string methods\<close>

text \<open>\<^verbatim>\<open>str.lower\<close> on code points below 256: the letters A-Z and the Latin-1 capitals
  (0xC0-0xDE without the multiplication sign 0xD7) move up by 32.\<close>

definition lower_char :: "char \<Rightarrow> char" where
  "lower_char c =
     (let n = (of_char c :: nat) in
      if (65 \<le> n \<and> n \<le> 90) \<or> (192 \<le> n \<and> n \<le> 222 \<and> n \<noteq> 215)
      then char_of (n + 32) else c)"

definition lower :: "string \<Rightarrow> string" where
  "lower s = map lower_char s"

text \<open>\<^verbatim>\<open>str.isspace\<close> for one code point below 256: TAB, LF, VT, FF, CR, the four
  separators 0x1C-0x1F, space, NEL and the no-break space.\<close>

definition isspace :: "char \<Rightarrow> bool" where
  "isspace c =
     (let n = (of_char c :: nat) in
      (9 \<le> n \<and> n \<le> 13) \<or> (28 \<le> n \<and> n \<le> 32) \<or> n = 133 \<or> n = 160)"

definition lstrip :: "string \<Rightarrow> string" where
  "lstrip s = dropWhile isspace s"

definition rstrip :: "string \<Rightarrow> string" where
  "rstrip s = rev (dropWhile isspace (rev s))"

definition strip :: "string \<Rightarrow> string" where
  "strip s = rstrip (lstrip s)"

text \<open>\<^verbatim>\<open>s.find(sub)\<close>: the lowest index at which \<open>sub\<close> occurs in \<open>s\<close>, or -1.\<close>

fun find_from :: "string \<Rightarrow> string \<Rightarrow> int \<Rightarrow> int" where
  "find_from [] sub i = (if sub = [] then i else - 1)"
| "find_from (c # cs) sub i = (if prefix sub (c # cs) then i else find_from cs sub (i + 1))"

definition find :: "string \<Rightarrow> string \<Rightarrow> int" where
  "find s sub = find_from s sub 0"

text \<open>\<^verbatim>\<open>s.endswith(t)\<close> for a tuple \<open>t\<close> of suffixes.\<close>

definition endswith :: "string \<Rightarrow> string list \<Rightarrow> bool" where
  "endswith s sufs = list_ex (\<lambda>e. suffix e s) sufs"

text \<open>\<^verbatim>\<open>str(n)\<close> for a non-negative integer.\<close>

fun str_nat :: "nat \<Rightarrow> string" where
  "str_nat n =
     (if n < 10 then [char_of (48 + n)]
      else str_nat (n div 10) @ [char_of (48 + n mod 10)])"

subsection \<open>Application state\<close>

text \<open>A \<^verbatim>\<open>pathlib.PurePosixPath\<close> in its parsed form: the root (\<open>''''\<close>, \<open>''/''\<close>
  or \<open>''//''\<close>) and the list of components after it.\<close>

record path =
  root :: string
  tail :: "string list"

text \<open>A \<^verbatim>\<open>QListWidget\<close>: the texts of its items and the current row (-1 when there is
  none).\<close>

record list_widget =
  items :: "string list"
  current_row :: int

text \<open>The fields of \<^verbatim>\<open>WalkmanPlaylistApp\<close> that its slots read or write.
  \<open>library_model\<close> holds the rows of the \<^verbatim>\<open>QStandardItemModel\<close> shown in the
  library view.\<close>

record app =
  root_folder :: "path option"
  root_label :: string
  library :: "string list"
  library_model :: "string list"
  playlist_widget :: list_widget

subsection \<open>\<^verbatim>\<open>posixpath\<close> and \<^verbatim>\<open>pathlib\<close>\<close>

text \<open>The program runs on a POSIX system; the functions of \<^verbatim>\<open>os.path\<close> and
  \<^verbatim>\<open>pathlib\<close> it calls are modelled after \<^verbatim>\<open>posixpath.py\<close> and
  \<^verbatim>\<open>pathlib.py\<close>.  The exceptions they can raise are values.\<close>

datatype py_error = ValueError | OSError | RuntimeError

text \<open>\<^verbatim>\<open>s.split('/')\<close> and \<^verbatim>\<open>'/'.join(xs)\<close>.\<close>

fun split_sep :: "string \<Rightarrow> string list" where
  "split_sep [] = [[]]"
| "split_sep (c # cs) =
     (if c = CHR ''/'' then [] # split_sep cs
      else (c # hd (split_sep cs)) # tl (split_sep cs))"

fun join_sep :: "string list \<Rightarrow> string" where
  "join_sep [] = []"
| "join_sep [x] = x"
| "join_sep (x # y # ys) = x @ ''/'' @ join_sep (y # ys)"

definition isabs :: "string \<Rightarrow> bool" where
  "isabs p = (take 1 p = ''/'')"

text \<open>\<^verbatim>\<open>posixpath.join(a, b)\<close>, and with more components
  \<^verbatim>\<open>posixpath.join(a, *p)\<close>, a loop over \<open>p\<close>.\<close>

definition posix_join :: "string \<Rightarrow> string \<Rightarrow> string" where
  "posix_join a b =
     (if take 1 b = ''/'' then b
      else if a = [] \<or> last a = CHR ''/'' then a @ b
      else a @ ''/'' @ b)"

definition posix_joins :: "string \<Rightarrow> string list \<Rightarrow> string" where
  "posix_joins a p = foldl posix_join a p"

text \<open>The loop of \<^verbatim>\<open>posixpath.normpath\<close> over the components, with
  \<open>new_comps\<close> as accumulator.\<close>

fun norm_comps :: "nat \<Rightarrow> string list \<Rightarrow> string list \<Rightarrow> string list" where
  "norm_comps initial_slashes [] new_comps = new_comps"
| "norm_comps initial_slashes (cmp # comps) new_comps =
     (if cmp = [] \<or> cmp = ''.'' then norm_comps initial_slashes comps new_comps
      else if cmp \<noteq> ''..'' \<or> (initial_slashes = 0 \<and> new_comps = [])
              \<or> (new_comps \<noteq> [] \<and> last new_comps = ''..'')
      then norm_comps initial_slashes comps (new_comps @ [cmp])
      else if new_comps \<noteq> [] then norm_comps initial_slashes comps (butlast new_comps)
      else norm_comps initial_slashes comps new_comps)"

definition normpath :: "string \<Rightarrow> string" where
  "normpath path =
     (if path = [] then ''.''
      else
        (let initial_slashes =
               (if take 1 path = ''/''
                then (if take 2 path = ''//'' \<and> take 3 path \<noteq> ''///'' then 2 else 1)
                else 0);
             comps = norm_comps initial_slashes (split_sep path) [];
             p = replicate initial_slashes CHR ''/'' @ join_sep comps
         in if p = [] then ''.'' else p))"

text \<open>\<^verbatim>\<open>posixpath.splitroot\<close> without the (always empty) drive: one leading slash,
  or three and more, give the root \<open>/\<close>; exactly two give the root \<open>//\<close>.\<close>

definition splitroot :: "string \<Rightarrow> string \<times> string" where
  "splitroot p =
     (if take 1 p \<noteq> ''/'' then ([], p)
      else if take 1 (drop 1 p) \<noteq> ''/'' \<or> take 1 (drop 2 p) = ''/'' then (''/'', drop 1 p)
      else (take 2 p, drop 2 p))"

text \<open>\<^verbatim>\<open>Path(s)\<close> parses a string: the root is split off, empty components and
  \<open>.\<close> are dropped.  \<^verbatim>\<open>str(p)\<close> formats a path; the empty path is \<open>.\<close>.\<close>

definition Path :: "string \<Rightarrow> path" where
  "Path s =
     (let (r, rel) = splitroot s
      in \<lparr>root = r, tail = filter (\<lambda>x. x \<noteq> [] \<and> x \<noteq> ''.'') (split_sep rel)\<rparr>)"

definition str_path :: "path \<Rightarrow> string" where
  "str_path p = (let s = root p @ join_sep (tail p) in if s = [] then ''.'' else s)"

text \<open>\<^verbatim>\<open>p / key\<close>: a \<open>key\<close> with a root replaces \<open>p\<close>, otherwise its components are
  appended to those of \<open>p\<close>.\<close>

definition joinpath :: "path \<Rightarrow> string \<Rightarrow> path" where
  "joinpath p key =
     (let q = Path key
      in if root q \<noteq> [] then q else \<lparr>root = root p, tail = tail p @ tail q\<rparr>)"

definition parent :: "path \<Rightarrow> path" where
  "parent p = (if tail p = [] then p else p\<lparr>tail := butlast (tail p)\<rparr>)"

definition parents :: "path \<Rightarrow> path list" where
  "parents p = map (\<lambda>k. p\<lparr>tail := take k (tail p)\<rparr>) (rev [0..<length (tail p)])"

text \<open>\<^verbatim>\<open>p.is_relative_to(other)\<close> is \<^verbatim>\<open>other == p or other in p.parents\<close>;
  \<^verbatim>\<open>p.relative_to(other)\<close> raises \<^verbatim>\<open>ValueError\<close> unless that holds, and then
  returns the components of \<open>p\<close> below \<open>other\<close> as a relative path.\<close>

definition is_relative_to :: "path \<Rightarrow> path \<Rightarrow> bool" where
  "is_relative_to p other = (other = p \<or> other \<in> set (parents p))"

definition relative_to :: "path \<Rightarrow> path \<Rightarrow> py_error + path" where
  "relative_to p other =
     (if is_relative_to p other
      then Inr \<lparr>root = [], tail = drop (length (tail other)) (tail p)\<rparr>
      else Inl ValueError)"

subsection \<open>The environment: file system and operating system\<close>

text \<open>What \<^verbatim>\<open>os.scandir\<close> tells \<^verbatim>\<open>os.walk\<close> about a directory entry: it is
  not a directory (\<open>File\<close>), a directory with its own entries (\<open>Dir\<close>), or something
  that is listed among the directories but not descended into: a symbolic link to a
  directory, or a directory that cannot be read (\<open>DirLink\<close>).\<close>

datatype entry = File | Dir "(string \<times> entry) list" | DirLink

text \<open>The environment of a run.  \<open>expanduser_home\<close> is the value of
  \<^verbatim>\<open>os.path.expanduser('~')\<close>; \<open>getcwd\<close> is the working directory, or \<open>None\<close> when
  \<^verbatim>\<open>os.getcwd()\<close> raises; \<open>realpath\<close> is the operating system's resolution of
  symbolic links behind \<^verbatim>\<open>Path.resolve()\<close>; \<open>scandir\<close> gives the entries of the
  directory a path string names, or \<open>None\<close> when it cannot be listed; \<open>open_w\<close> tells
  whether \<^verbatim>\<open>open(path, 'w')\<close> raises.\<close>

record env =
  expanduser_home :: string
  getcwd :: "string option"
  realpath :: "string \<Rightarrow> py_error + string"
  scandir :: "string \<Rightarrow> (string \<times> entry) list option"
  open_w :: "string \<Rightarrow> py_error option"

text \<open>The files written so far, by path string.\<close>

type_synonym disk = "string \<Rightarrow> string option"

text \<open>The dialogs a slot shows, in order, with the texts it passes to them.  The
  argument of \<open>Critical\<close> is the exception whose message the dialog displays.\<close>

datatype event =
    GetExistingDirectory string string
  | GetText string string
  | GetSaveFileName string string string
  | Information string string
  | Warning string string
  | Critical string string py_error

definition abspath :: "env \<Rightarrow> string \<Rightarrow> py_error + string" where
  "abspath env path =
     (if \<not> isabs path then
        (case getcwd env of
           None \<Rightarrow> Inl OSError
         | Some cwd \<Rightarrow> Inr (normpath (posix_join cwd path)))
      else Inr (normpath path))"

text \<open>\<^verbatim>\<open>os.path.relpath(path, start)\<close> called with two path objects.  Its guard
  \<^verbatim>\<open>if not path: raise ValueError\<close> never fires for a path object, so the only
  exception is that of \<^verbatim>\<open>os.getcwd()\<close> inside \<^verbatim>\<open>abspath\<close>.\<close>

definition relpath :: "env \<Rightarrow> path \<Rightarrow> path \<Rightarrow> py_error + string" where
  "relpath env path start =
     (case abspath env (str_path start) of
        Inl e \<Rightarrow> Inl e
      | Inr s \<Rightarrow>
          (case abspath env (str_path path) of
             Inl e \<Rightarrow> Inl e
           | Inr p \<Rightarrow>
               (let start_list = filter (\<lambda>x. x \<noteq> []) (split_sep s);
                    path_list = filter (\<lambda>x. x \<noteq> []) (split_sep p);
                    i = length (longest_common_prefix start_list path_list);
                    rel_list = replicate (length start_list - i) ''..'' @ drop i path_list
                in if rel_list = [] then Inr ''.''
                   else Inr (posix_joins (hd rel_list) (tl rel_list)))))"

definition resolve :: "env \<Rightarrow> path \<Rightarrow> py_error + path" where
  "resolve env p =
     (case realpath env (str_path p) of Inl e \<Rightarrow> Inl e | Inr s \<Rightarrow> Inr (Path s))"

text \<open>\<^verbatim>\<open>os.walk(top)\<close>, top down and without following links: the pair of the
  directory's path and its non-directory names, then the walks of its sub-directories in
  the order of the listing.  (The list of directory names, which the program ignores, is
  left out.)\<close>

fun walk :: "string \<Rightarrow> (string \<times> entry) list \<Rightarrow> (string \<times> string list) list" where
  "walk dirpath es =
     (dirpath, map fst (filter (\<lambda>(n, k). k = File) es))
     # concat (map (\<lambda>(n, k). case k of Dir sub \<Rightarrow> walk (posix_join dirpath n) sub | _ \<Rightarrow> []) es)"

definition os_walk :: "env \<Rightarrow> string \<Rightarrow> (string \<times> string list) list" where
  "os_walk env dirpath = (case scandir env dirpath of None \<Rightarrow> [] | Some es \<Rightarrow> walk dirpath es)"

subsection \<open>Library view: \<^verbatim>\<open>populate_library\<close> and \<^verbatim>\<open>filter_library\<close>\<close>

text \<open>Both slots clear the model and append rows in a loop over the library; the loop
  is a recursion over the library with the model's rows as accumulator.\<close>

fun populate_rows :: "string list \<Rightarrow> string list \<Rightarrow> string list" where
  "populate_rows [] model = model"
| "populate_rows (t # ts) model = populate_rows ts (model @ [t])"

definition populate_library :: "app \<Rightarrow> app" where
  "populate_library s = s\<lparr>library_model := populate_rows (library s) []\<rparr>"

text \<open>The loop of \<^verbatim>\<open>filter_library\<close>.  Its test is
  \<^verbatim>\<open>txt == '' or txt.lower().find(txt) != -1\<close>: the search is made in \<open>txt\<close>, the
  entry \<open>t\<close> is not consulted.\<close>

fun filter_rows :: "string \<Rightarrow> string list \<Rightarrow> string list \<Rightarrow> string list" where
  "filter_rows txt [] model = model"
| "filter_rows txt (t # ts) model =
     (if txt = [] \<or> find (lower txt) txt \<noteq> - 1
      then filter_rows txt ts (model @ [t])
      else filter_rows txt ts model)"

definition filter_library :: "string \<Rightarrow> app \<Rightarrow> app" where
  "filter_library txt s =
     (let txt = lower (strip txt)
      in s\<lparr>library_model := filter_rows txt (library s) []\<rparr>)"

subsection \<open>Choosing and scanning the root folder\<close>

definition AUDIO_EXTS :: "string list" where
  "AUDIO_EXTS = [''.mp3'', ''.flac'', ''.wav'', ''.m4a'', ''.aac'', ''.ogg'']"

text \<open>\<^verbatim>\<open>choose_root\<close>: \<open>reply\<close> is what the folder dialog returns, the empty string
  when it is cancelled.\<close>

definition choose_root :: "env \<Rightarrow> string \<Rightarrow> app \<Rightarrow> app \<times> event list" where
  "choose_root env reply s =
     (let shown = [GetExistingDirectory ''Select Root Music Folder'' (expanduser_home env)]
      in if reply \<noteq> []
         then (s\<lparr>root_folder := Some (Path reply),
                 root_label := ''Root Music Folder: '' @ str_path (Path reply)\<rparr>, shown)
         else (s, shown))"

text \<open>The inner loop of \<^verbatim>\<open>scan_folder\<close> over the file names of one directory
  \<open>dirpath\<close> (the loop variable \<^verbatim>\<open>root\<close> of the source), and the outer loop over
  the pairs that \<^verbatim>\<open>os.walk\<close> yields.  \<open>rf\<close> is \<^verbatim>\<open>self.root_folder\<close>.  An
  exception of \<^verbatim>\<open>relative_to\<close> leaves both loops.\<close>

fun scan_files ::
  "path option \<Rightarrow> path \<Rightarrow> string \<Rightarrow> string list \<Rightarrow> string list \<Rightarrow> py_error + string list"
where
  "scan_files rf start dirpath [] track_list = Inr track_list"
| "scan_files rf start dirpath (f # files) track_list =
     (if endswith (lower f) AUDIO_EXTS then
        (let full = joinpath (Path dirpath) f
         in case (case rf of
                    Some r \<Rightarrow>
                      if is_relative_to full r then relative_to full r
                      else relative_to full start
                  | None \<Rightarrow> relative_to full start) of
              Inl e \<Rightarrow> Inl e
            | Inr rel \<Rightarrow> scan_files rf start dirpath files (track_list @ [str_path rel]))
      else scan_files rf start dirpath files track_list)"

fun scan_dirs ::
  "path option \<Rightarrow> path \<Rightarrow> (string \<times> string list) list \<Rightarrow> string list
    \<Rightarrow> py_error + string list"
where
  "scan_dirs rf start [] track_list = Inr track_list"
| "scan_dirs rf start ((dirpath, files) # rest) track_list =
     (case scan_files rf start dirpath files track_list of
        Inl e \<Rightarrow> Inl e
      | Inr track_list' \<Rightarrow> scan_dirs rf start rest track_list')"

text \<open>\<^verbatim>\<open>scan_folder\<close>: \<open>reply\<close> is what the folder dialog returns if it is shown.
  The result is \<open>Inl\<close> when the slot is left by an exception (the state is then as it
  was), otherwise the new state and the dialogs shown.\<close>

definition scan_folder :: "env \<Rightarrow> string \<Rightarrow> app \<Rightarrow> py_error + app \<times> event list" where
  "scan_folder env reply s =
     (let (start, shown) =
            (case root_folder s of
               None \<Rightarrow>
                 (if reply = [] then None else Some (Path reply),
                  [GetExistingDirectory ''Select Folder to Scan'' (expanduser_home env)])
             | Some r \<Rightarrow> (Some r, []))
      in case start of
           None \<Rightarrow> Inr (s, shown)
         | Some start \<Rightarrow>
             (case scan_dirs (root_folder s) start (os_walk env (str_path start)) [] of
                Inl e \<Rightarrow> Inl e
              | Inr track_list \<Rightarrow>
                  (let track_list = sort_key lower track_list;
                       s' = populate_library (s\<lparr>library := track_list\<rparr>)
                   in Inr (s', shown @
                        [Information ''Scan Complete''
                           (''Found '' @ str_nat (length track_list) @ '' audio files.'')]))))"

subsection \<open>Playlist widget: the \<^verbatim>\<open>QListWidget\<close> calls the slots make\<close>

definition count :: "list_widget \<Rightarrow> int" where
  "count w = int (length (items w))"

text \<open>\<^verbatim>\<open>takeItem(row)\<close> removes and returns the item at \<open>row\<close>, or returns no item
  when \<open>row\<close> is out of range.  The view keeps its current index on the same item; when
  the current item itself is removed the current index moves to the item after it, or to
  the one before it when it was the last.\<close>

definition takeItem :: "int \<Rightarrow> list_widget \<Rightarrow> string option \<times> list_widget" where
  "takeItem row w =
     (if row < 0 \<or> count w \<le> row then (None, w)
      else
        (Some (items w ! nat row),
         w\<lparr>items := take (nat row) (items w) @ drop (Suc (nat row)) (items w),
           current_row :=
             (if current_row w < row then current_row w
              else if row < current_row w then current_row w - 1
              else if row + 1 < count w then row
              else row - 1)\<rparr>))"

text \<open>\<^verbatim>\<open>insertItem(row, item)\<close> does nothing without an item; otherwise it clamps
  \<open>row\<close> into \<open>0..count\<close> and inserts there.\<close>

definition insertItem :: "int \<Rightarrow> string option \<Rightarrow> list_widget \<Rightarrow> list_widget" where
  "insertItem row item w =
     (case item of
        None \<Rightarrow> w
      | Some it \<Rightarrow>
          (let r = (if row < 0 then 0 else if count w < row then count w else row)
           in w\<lparr>items := take (nat r) (items w) @ [it] @ drop (nat r) (items w),
                current_row :=
                  (if 0 \<le> current_row w \<and> r \<le> current_row w then current_row w + 1
                   else current_row w)\<rparr>))"

definition setCurrentRow :: "int \<Rightarrow> list_widget \<Rightarrow> list_widget" where
  "setCurrentRow row w =
     w\<lparr>current_row := (if 0 \<le> row \<and> row < count w then row else - 1)\<rparr>"

definition move_up :: "app \<Rightarrow> app" where
  "move_up s =
     (let row = current_row (playlist_widget s) in
      if row > 0 then
        (let (item, w1) = takeItem row (playlist_widget s);
             w2 = insertItem (row - 1) item w1;
             w3 = setCurrentRow (row - 1) w2
         in s\<lparr>playlist_widget := w3\<rparr>)
      else s)"

definition move_down :: "app \<Rightarrow> app" where
  "move_down s =
     (let row = current_row (playlist_widget s) in
      if row \<ge> 0 \<and> row < count (playlist_widget s) - 1 then
        (let (item, w1) = takeItem row (playlist_widget s);
             w2 = insertItem (row + 1) item w1;
             w3 = setCurrentRow (row + 1) w2
         in s\<lparr>playlist_widget := w3\<rparr>)
      else s)"

subsection \<open>Saving the playlist\<close>

text \<open>A line of text: the string followed by a newline.\<close>

definition line :: "string \<Rightarrow> string" where
  "line l = l @ [CHR 0x0A]"

text \<open>The test \<^verbatim>\<open>self.root_folder and save_path.parent.resolve() ==
  self.root_folder.resolve()\<close>; either \<^verbatim>\<open>resolve\<close> may raise.\<close>

definition saved_inside_root :: "env \<Rightarrow> path option \<Rightarrow> path \<Rightarrow> py_error + bool" where
  "saved_inside_root env rf save_path =
     (case rf of
        None \<Rightarrow> Inr False
      | Some r \<Rightarrow>
          (case resolve env (parent save_path) of
             Inl e \<Rightarrow> Inl e
           | Inr a \<Rightarrow> (case resolve env r of Inl e \<Rightarrow> Inl e | Inr b \<Rightarrow> Inr (a = b))))"

text \<open>What the body of the loop writes after the \<^verbatim>\<open>#EXTINF:,\<close> line, for the
  track \<open>t\<close>, to the text \<open>f\<close> written so far.  The first component of the result is the
  exception that leaves the loop, if any.\<close>

definition write_track ::
  "env \<Rightarrow> path option \<Rightarrow> path \<Rightarrow> string \<Rightarrow> string \<Rightarrow> py_error option \<times> string"
where
  "write_track env rf save_path t f =
     (case saved_inside_root env rf save_path of
        Inl e \<Rightarrow> (Some e, f)
      | Inr True \<Rightarrow> (None, f @ line t)
      | Inr False \<Rightarrow>
          (case rf of
             Some r \<Rightarrow>
               (let track_abs = joinpath r t
                in case relpath env track_abs (parent save_path) of
                     Inr rel_to_save \<Rightarrow> (None, f @ line rel_to_save)
                   | Inl e \<Rightarrow> (None, f @ line t))
           | None \<Rightarrow> (None, f @ line t)))"

fun write_tracks ::
  "env \<Rightarrow> path option \<Rightarrow> path \<Rightarrow> string list \<Rightarrow> string \<Rightarrow> py_error option \<times> string"
where
  "write_tracks env rf save_path [] f = (None, f)"
| "write_tracks env rf save_path (t # tracks) f =
     (case write_track env rf save_path t (f @ line ''#EXTINF:,'') of
        (Some e, f') \<Rightarrow> (Some e, f')
      | (None, f') \<Rightarrow> write_tracks env rf save_path tracks f')"

text \<open>\<^verbatim>\<open>save_playlist\<close>: \<open>text_reply\<close> is what the name dialog returns (the text and
  whether it was confirmed), \<open>file_reply\<close> what the file dialog returns (the path, empty
  when cancelled, and the selected filter); each is used only if its dialog is shown.
  The file is opened for writing and closed again whether or not the loop is left by an
  exception, so the text written up to then is on the disk.\<close>

definition save_playlist ::
  "env \<Rightarrow> string \<times> bool \<Rightarrow> string \<times> string \<Rightarrow> app \<Rightarrow> disk \<Rightarrow> app \<times> disk \<times> event list"
where
  "save_playlist env text_reply file_reply s d =
     (if count (playlist_widget s) = 0
      then (s, d, [Warning ''Nothing to save'' ''Playlist is empty.''])
      else
        (let ask_name = GetText ''Playlist name'' ''Enter playlist name (no extension):'';
             (suggested_name, ok) = text_reply
         in if \<not> ok \<or> strip suggested_name = [] then (s, d, [ask_name])
            else
              (let name = strip suggested_name;
                   default_dir =
                     (case root_folder s of
                        Some r \<Rightarrow> str_path r
                      | None \<Rightarrow> expanduser_home env);
                   ask_path =
                     GetSaveFileName ''Save playlist as''
                       (posix_join default_dir (name @ ''.m3u8'')) ''M3U8 files (*.m3u8)'';
                   (path, selected_filter) = file_reply
               in if path = [] then (s, d, [ask_name, ask_path])
                  else
                    (let tracks = items (playlist_widget s);
                         save_path = Path path
                     in case open_w env (str_path save_path) of
                          Some e \<Rightarrow>
                            (s, d, [ask_name, ask_path,
                                    Critical ''Save failed'' ''Could not save playlist: '' e])
                        | None \<Rightarrow>
                            (case write_tracks env (root_folder s) save_path tracks
                                    (line ''#EXTM3U'') of
                               (Some e, f) \<Rightarrow>
                                 (s, d(str_path save_path \<mapsto> f),
                                  [ask_name, ask_path,
                                   Critical ''Save failed'' ''Could not save playlist: '' e])
                             | (None, f) \<Rightarrow>
                                 (s, d(str_path save_path \<mapsto> f),
                                  [ask_name, ask_path,
                                   Information ''Saved''
                                     (''Playlist saved to '' @ str_path save_path)]))))))"

subsection \<open>Notions used to state the properties\<close>

text \<open>The path-resolution rule in the words of the specification, for an entry \<open>t\<close>, the
  root folder \<open>rf\<close> (if one is set) and the directory \<open>out_dir\<close> of the output file:
  if a root folder is set and \<open>out_dir\<close> is the root folder, \<open>t\<close>; else if a root folder
  is set, the path of \<open>root / t\<close> relative to \<open>out_dir\<close>, and \<open>t\<close> if that cannot be
  computed; else \<open>t\<close>.  Two directories are the same when they resolve to the same
  path.\<close>

definition same_directory :: "env \<Rightarrow> path \<Rightarrow> path \<Rightarrow> bool" where
  "same_directory env a b =
     (case resolve env a of
        Inl e \<Rightarrow> False
      | Inr a' \<Rightarrow> (case resolve env b of Inl e \<Rightarrow> False | Inr b' \<Rightarrow> a' = b'))"

definition spec_path_line :: "env \<Rightarrow> path option \<Rightarrow> path \<Rightarrow> string \<Rightarrow> string" where
  "spec_path_line env rf out_dir t =
     (case rf of
        Some r \<Rightarrow>
          if same_directory env out_dir r then t
          else (case relpath env (joinpath r t) out_dir of Inr rel \<Rightarrow> rel | Inl e \<Rightarrow> t)
      | None \<Rightarrow> t)"

text \<open>Well-formed data.  A name in a directory listing is not empty, is neither \<open>.\<close>
  nor \<open>..\<close>, and contains no slash.  A parsed path has one of the three roots, and
  its components are not empty, are not \<open>.\<close> and contain no slash; the paths that
  \<open>Path\<close> returns are of this kind.\<close>

definition valid_name :: "string \<Rightarrow> bool" where
  "valid_name n = (n \<noteq> [] \<and> n \<noteq> ''.'' \<and> n \<noteq> ''..'' \<and> CHR ''/'' \<notin> set n)"

fun wf_entries :: "(string \<times> entry) list \<Rightarrow> bool" where
  "wf_entries es =
     list_all (\<lambda>(n, k). valid_name n \<and> (case k of Dir sub \<Rightarrow> wf_entries sub | _ \<Rightarrow> True)) es"

definition wf_env :: "env \<Rightarrow> bool" where
  "wf_env env = (\<forall>p es. scandir env p = Some es \<longrightarrow> wf_entries es)"

definition wf_path :: "path \<Rightarrow> bool" where
  "wf_path p =
     (root p \<in> {[], ''/'', ''//''}
      \<and> list_all (\<lambda>x. x \<noteq> [] \<and> x \<noteq> ''.'' \<and> CHR ''/'' \<notin> set x) (tail p))"

definition wf_app :: "app \<Rightarrow> bool" where
  "wf_app s = (case root_folder s of None \<Rightarrow> True | Some r \<Rightarrow> wf_path r)"

text \<open>The files below a directory, each as the list of names that leads to it from the
  directory: its own files first, then those of its sub-directories, in the order of the
  listing.  \<open>listing\<close> is the content of the directory a path names (nothing if it
  cannot be listed).\<close>

fun tree_files :: "(string \<times> entry) list \<Rightarrow> string list list" where
  "tree_files es =
     map (\<lambda>n. [n]) (map fst (filter (\<lambda>(n, k). k = File) es))
     @ concat (map (\<lambda>(n, k). case k of Dir sub \<Rightarrow> map ((#) n) (tree_files sub) | _ \<Rightarrow> []) es)"

definition listing :: "env \<Rightarrow> path \<Rightarrow> (string \<times> entry) list" where
  "listing env p = (case scandir env (str_path p) of None \<Rightarrow> [] | Some es \<Rightarrow> es)"

text \<open>A name or path has a recognized audio extension when its lower-cased text ends
  with one of \<open>AUDIO_EXTS\<close>.\<close>

definition has_audio_ext :: "string \<Rightarrow> bool" where
  "has_audio_ext f = endswith (lower f) AUDIO_EXTS"

text \<open>The audio files below a directory, each as its path relative to the directory,
  in the order in which the walk meets them.\<close>

definition audio_files_below :: "env \<Rightarrow> path \<Rightarrow> string list" where
  "audio_files_below env start =
     map join_sep (filter (\<lambda>p. has_audio_ext (last p)) (tree_files (listing env start)))"

text \<open>The test under which the loop of \<open>scan_folder\<close> takes its second branch, the one
  that records the path relative to the directory where the scan started.\<close>

definition records_relative_to_start :: "path option \<Rightarrow> path \<Rightarrow> bool" where
  "records_relative_to_start rf full =
     (case rf of Some r \<Rightarrow> \<not> is_relative_to full r | None \<Rightarrow> True)"

text \<open>The directory in which a scan starts, if it is not cancelled.\<close>

definition scan_start :: "app \<Rightarrow> string \<Rightarrow> path option" where
  "scan_start s reply =
     (case root_folder s of
        Some r \<Rightarrow> Some r
      | None \<Rightarrow> if reply = [] then None else Some (Path reply))"

text \<open>A text made of lines, and the lines of a text.\<close>

definition unlines :: "string list \<Rightarrow> string" where
  "unlines ls = concat (map line ls)"

fun text_lines :: "string \<Rightarrow> string list" where
  "text_lines [] = []"
| "text_lines (c # cs) =
     (if c = CHR 0x0A then [] # text_lines cs
      else (case text_lines cs of [] \<Rightarrow> [[c]] | l # ls \<Rightarrow> (c # l) # ls))"

text \<open>The lines of a playlist file with the given path lines.\<close>

definition m3u8_lines :: "string list \<Rightarrow> string list" where
  "m3u8_lines ps = ''#EXTM3U'' # concat (map (\<lambda>p. [''#EXTINF:,'', p]) ps)"

text \<open>An environment without symbolic links, in which every file can be written, and
  whose folder \<open>/music\<close> holds two audio files and a picture; and a state of the program
  with that root folder and a playlist of the two audio files.\<close>

definition example_env :: env where
  "example_env =
     \<lparr>expanduser_home = ''/Users/u'',
      getcwd = Some ''/Users/u'',
      realpath = (\<lambda>p. Inr (normpath (if isabs p then p else posix_join ''/Users/u'' p))),
      scandir = (\<lambda>p. if p = ''/music''
                      then Some [(''b.flac'', File),
                                 (''A'', Dir [(''song.mp3'', File), (''cover.jpg'', File)])]
                      else None),
      open_w = (\<lambda>p. None)\<rparr>"

definition example_app :: app where
  "example_app =
     \<lparr>root_folder = Some (Path ''/music''), root_label = ''Root Music Folder: /music'',
      library = [''A/song.mp3'', ''b.flac''], library_model = [''A/song.mp3'', ''b.flac''],
      playlist_widget = \<lparr>items = [''A/song.mp3'', ''b.flac''], current_row = 1\<rparr>\<rparr>"

section \<open>Properties\<close>

subsection \<open>Strings\<close>

lemma lower_char_idem: "lower_char (lower_char c) = lower_char c"
proof -
  let ?n = "of_char c :: nat"
  have lt: "?n < 256" by simp
  show ?thesis
  proof (cases "(65 \<le> ?n \<and> ?n \<le> 90) \<or> (192 \<le> ?n \<and> ?n \<le> 222 \<and> ?n \<noteq> 215)")
    case False
    then have "lower_char c = c"
      unfolding lower_char_def Let_def by (simp only: if_False)
    then show ?thesis by simp
  next
    case True
    then have l: "lower_char c = char_of (?n + 32)"
      by (simp add: lower_char_def Let_def)
    from True have "(?n + 32) mod 256 = ?n + 32" by auto
    then have "(of_char (char_of (?n + 32)) :: nat) = ?n + 32"
      by (simp add: of_char_of)
    with True have "lower_char (char_of (?n + 32)) = char_of (?n + 32)"
      unfolding lower_char_def Let_def by auto
    with l show ?thesis by simp
  qed
qed

lemma lower_idem: "lower (lower s) = lower s"
  by (simp add: lower_def lower_char_idem)

lemma find_self: "find s s = 0"
  by (cases s) (simp_all add: find_def)

lemma strip_empty_iff: "strip s = [] \<longleftrightarrow> list_all isspace s"
proof -
  have "strip s = [] \<longleftrightarrow> dropWhile isspace (rev (dropWhile isspace s)) = []"
    by (simp add: strip_def rstrip_def lstrip_def)
  also have "\<dots> \<longleftrightarrow> (\<forall>c \<in> set (dropWhile isspace s). isspace c)"
    by (simp add: dropWhile_eq_Nil_conv)
  also have "\<dots> \<longleftrightarrow> dropWhile isspace s = []"
  proof
    assume a: "\<forall>c \<in> set (dropWhile isspace s). isspace c"
    show "dropWhile isspace s = []"
    proof (cases "dropWhile isspace s")
      case (Cons x xs)
      then have "\<not> isspace x" using hd_dropWhile [of isspace s] by simp
      with a Cons show ?thesis by simp
    qed simp
  qed (auto dest: set_dropWhileD)
  also have "\<dots> \<longleftrightarrow> list_all isspace s"
    by (simp add: dropWhile_eq_Nil_conv list_all_iff)
  finally show ?thesis .
qed

lemma strip_decomp:
  "\<exists>pre post. s = pre @ strip s @ post \<and> list_all isspace pre \<and> list_all isspace post
     \<and> (strip s \<noteq> [] \<longrightarrow> \<not> isspace (hd (strip s)) \<and> \<not> isspace (last (strip s)))"
proof -
  define m where "m = dropWhile isspace s"
  have s: "s = takeWhile isspace s @ m" by (simp add: m_def)
  have m: "rev m = takeWhile isspace (rev m) @ dropWhile isspace (rev m)" by simp
  have st: "strip s = rev (dropWhile isspace (rev m))"
    by (simp add: strip_def rstrip_def lstrip_def m_def)
  have m2: "m = strip s @ rev (takeWhile isspace (rev m))"
    unfolding st by (metis m rev_append rev_rev_ident)
  have a1: "list_all isspace (takeWhile isspace s)"
    by (simp add: list_all_iff) (meson set_takeWhileD)
  have a2: "list_all isspace (rev (takeWhile isspace (rev m)))"
    by (simp add: list_all_iff) (meson set_takeWhileD)
  have a3: "strip s \<noteq> [] \<Longrightarrow> \<not> isspace (last (strip s))"
    unfolding st using hd_dropWhile [of isspace "rev m"] by (simp add: last_rev)
  have a4: "strip s \<noteq> [] \<Longrightarrow> \<not> isspace (hd (strip s))"
  proof -
    assume ne: "strip s \<noteq> []"
    then have "m \<noteq> []" using m2 by auto
    then have "\<not> isspace (hd m)" unfolding m_def using hd_dropWhile by blast
    moreover have "hd m = hd (strip s)" using m2 ne by (metis hd_append2)
    ultimately show ?thesis by simp
  qed
  from s m2 have "s = takeWhile isspace s @ strip s @ rev (takeWhile isspace (rev m))" by simp
  with a1 a2 a3 a4 show ?thesis by blast
qed

subsection \<open>The library view\<close>

lemma populate_rows_eq: "populate_rows ts model = model @ ts"
  by (induction ts arbitrary: model) simp_all

lemma filter_rows_lowered: "filter_rows (lower x) ts model = model @ ts"
  by (induction ts arbitrary: model) (simp_all add: lower_idem find_self)

lemma filter_library_shows_all: "library_model (filter_library txt s) = library s"
  by (simp add: filter_library_def Let_def filter_rows_lowered)

lemma filter_library_library: "library (filter_library txt s) = library s"
  by (simp add: filter_library_def Let_def)

text \<open>
  Claim C2 (the displayed view is exactly the entries that contain the search string,
  case-insensitively).  The code does not do this: with the library
  \<open>[''a.mp3'', ''b.flac'']\<close> and the search string \<open>''zzz''\<close>, which neither entry
  contains, the view still shows both entries, because the test of the loop searches the
  search string in itself.  The library itself is left as it was.
\<close>

theorem filter_library_ignores_entries:
  "library_model (filter_library ''zzz''
      \<lparr>root_folder = None, root_label = [], library = [''a.mp3'', ''b.flac''],
       library_model = [], playlist_widget = \<lparr>items = [], current_row = - 1\<rparr>\<rparr>)
   = [''a.mp3'', ''b.flac'']"
  by (simp add: filter_library_shows_all)

text \<open>
  Claim C8 (filtering is idempotent, and the empty search string shows the full
  library).  Filtering twice with the same text gives the state that filtering once
  gives, and filtering with the empty text displays the whole library.
\<close>

theorem filter_library_idempotent:
  "filter_library txt (filter_library txt s) = filter_library txt s
   \<and> library_model (filter_library [] s) = library s"
  by (simp add: filter_library_def Let_def filter_rows_lowered)

subsection \<open>Reordering the playlist\<close>

lemma split_at_adjacent:
  assumes "Suc i < length xs"
  shows "xs = take i xs @ xs ! i # xs ! Suc i # drop (Suc (Suc i)) xs"
proof -
  have "xs ! Suc i # drop (Suc (Suc i)) xs = drop (Suc i) xs"
    using assms by (simp add: Cons_nth_drop_Suc)
  moreover have "xs ! i # drop (Suc i) xs = drop i xs"
    using assms by (simp add: Cons_nth_drop_Suc)
  ultimately show ?thesis by simp
qed

lemma take_insert_before:
  assumes "Suc i < length xs"
  shows "take i (take (Suc i) xs @ drop (Suc (Suc i)) xs) @ [xs ! Suc i]
           @ drop i (take (Suc i) xs @ drop (Suc (Suc i)) xs)
         = xs[i := xs ! Suc i, Suc i := xs ! i]"
proof -
  obtain as a b bs where xs: "xs = as @ a # b # bs" and len: "length as = i"
    using split_at_adjacent [OF assms] assms by (metis Suc_lessD length_take less_imp_le_nat min.absorb2)
  show ?thesis using len by (simp add: xs nth_append list_update_append)
qed

lemma take_insert_after:
  assumes "Suc i < length xs"
  shows "take (Suc i) (take i xs @ drop (Suc i) xs) @ [xs ! i]
           @ drop (Suc i) (take i xs @ drop (Suc i) xs)
         = xs[i := xs ! Suc i, Suc i := xs ! i]"
proof -
  obtain as a b bs where xs: "xs = as @ a # b # bs" and len: "length as = i"
    using split_at_adjacent [OF assms] assms by (metis Suc_lessD length_take less_imp_le_nat min.absorb2)
  show ?thesis using len by (simp add: xs nth_append list_update_append)
qed

lemma move_up_swap:
  assumes "0 < current_row (playlist_widget s)"
      and "current_row (playlist_widget s) < count (playlist_widget s)"
  shows "move_up s =
           s\<lparr>playlist_widget :=
               \<lparr>items = (items (playlist_widget s))
                   [nat (current_row (playlist_widget s)) - 1 :=
                      items (playlist_widget s) ! nat (current_row (playlist_widget s)),
                    nat (current_row (playlist_widget s)) :=
                      items (playlist_widget s) ! (nat (current_row (playlist_widget s)) - 1)],
                current_row = current_row (playlist_widget s) - 1\<rparr>\<rparr>"
proof -
  define w where "w = playlist_widget s"
  define row where "row = current_row w"
  define xs where "xs = items w"
  define i where "i = nat row - 1"
  define c where "c = (if row + 1 < count w then row else row - 1)"
  define w1 where "w1 = \<lparr>items = take (Suc i) xs @ drop (Suc (Suc i)) xs, current_row = c\<rparr>"
  have pos: "0 < row" and lt: "row < count w"
    using assms by (simp_all add: row_def w_def)
  have nr: "nat row = Suc i" and nr1: "nat (row - 1) = i"
    using pos by (simp_all add: i_def)
  have len: "Suc i < length xs"
    using lt nr by (simp add: count_def xs_def)
  have cnt1: "count w1 = count w - 1"
    using len by (simp add: count_def w1_def xs_def)
  have t: "takeItem row w = (Some (xs ! Suc i), w1)"
    using pos lt by (simp add: takeItem_def nr row_def [symmetric] xs_def [symmetric] w1_def c_def)
  have "items (insertItem (row - 1) (Some (xs ! Suc i)) w1)
          = take i (items w1) @ [xs ! Suc i] @ drop i (items w1)"
    using pos lt by (simp add: insertItem_def cnt1 nr1 Let_def)
  then have ins: "items (insertItem (row - 1) (Some (xs ! Suc i)) w1)
          = xs[i := xs ! Suc i, Suc i := xs ! i]"
    using take_insert_before [OF len] by (simp add: w1_def)
  have "count (insertItem (row - 1) (Some (xs ! Suc i)) w1) = count w"
    by (simp add: count_def [of "insertItem _ _ _"] ins) (simp add: count_def xs_def)
  then have cur: "setCurrentRow (row - 1) (insertItem (row - 1) (Some (xs ! Suc i)) w1)
          = \<lparr>items = xs[i := xs ! Suc i, Suc i := xs ! i], current_row = row - 1\<rparr>"
    using pos lt ins by (simp add: setCurrentRow_def)
  have "move_up s = s\<lparr>playlist_widget :=
          setCurrentRow (row - 1) (insertItem (row - 1) (Some (xs ! Suc i)) w1)\<rparr>"
    unfolding move_up_def Let_def w_def [symmetric] row_def [symmetric] t
    using pos by simp
  then show ?thesis
    unfolding cur w_def [symmetric] row_def [symmetric] xs_def [symmetric] nr by simp
qed
lemma move_down_swap:
  assumes "0 \<le> current_row (playlist_widget s)"
      and "current_row (playlist_widget s) < count (playlist_widget s) - 1"
  shows "move_down s =
           s\<lparr>playlist_widget :=
               \<lparr>items = (items (playlist_widget s))
                   [nat (current_row (playlist_widget s)) :=
                      items (playlist_widget s) ! (nat (current_row (playlist_widget s)) + 1),
                    nat (current_row (playlist_widget s)) + 1 :=
                      items (playlist_widget s) ! nat (current_row (playlist_widget s))],
                current_row = current_row (playlist_widget s) + 1\<rparr>\<rparr>"
proof -
  define w where "w = playlist_widget s"
  define row where "row = current_row w"
  define xs where "xs = items w"
  define i where "i = nat row"
  define c where "c = (if row + 1 < count w then row else row - 1)"
  define w1 where "w1 = \<lparr>items = take i xs @ drop (Suc i) xs, current_row = c\<rparr>"
  have pos: "0 \<le> row" and lt: "row < count w - 1"
    using assms by (simp_all add: row_def w_def)
  have nr: "nat row = i" and nr1: "nat (row + 1) = Suc i"
    using pos by (simp_all add: i_def)
  have len: "Suc i < length xs"
    using lt pos by (simp add: count_def xs_def i_def)
  have cnt1: "count w1 = count w - 1"
    using len by (simp add: count_def w1_def xs_def)
  have t: "takeItem row w = (Some (xs ! i), w1)"
    using pos lt by (simp add: takeItem_def nr row_def [symmetric] xs_def [symmetric] w1_def c_def)
  have "items (insertItem (row + 1) (Some (xs ! i)) w1)
          = take (Suc i) (items w1) @ [xs ! i] @ drop (Suc i) (items w1)"
    using pos lt by (simp add: insertItem_def cnt1 nr1 Let_def)
  then have ins: "items (insertItem (row + 1) (Some (xs ! i)) w1)
          = xs[i := xs ! Suc i, Suc i := xs ! i]"
    using take_insert_after [OF len] by (simp add: w1_def)
  have "count (insertItem (row + 1) (Some (xs ! i)) w1) = count w"
    by (simp add: count_def [of "insertItem _ _ _"] ins) (simp add: count_def xs_def)
  then have cur: "setCurrentRow (row + 1) (insertItem (row + 1) (Some (xs ! i)) w1)
          = \<lparr>items = xs[i := xs ! Suc i, Suc i := xs ! i], current_row = row + 1\<rparr>"
    using pos lt ins by (simp add: setCurrentRow_def)
  have "move_down s = s\<lparr>playlist_widget :=
          setCurrentRow (row + 1) (insertItem (row + 1) (Some (xs ! i)) w1)\<rparr>"
    unfolding move_down_def Let_def w_def [symmetric] row_def [symmetric] t
    using pos lt by simp
  then show ?thesis
    unfolding cur w_def [symmetric] row_def [symmetric] xs_def [symmetric] nr by simp
qed

text \<open>
  Claim C7 (move up and move down swap the selected entry with its neighbour, and do
  nothing at the boundary).  In a playlist widget whose current row is a row of the
  list or -1, \<open>move_up\<close> with the current row \<open>r > 0\<close> exchanges the entries at \<open>r - 1\<close>
  and \<open>r\<close>, changes no other entry and makes \<open>r - 1\<close> the current row; with the first
  row (or no row) selected it returns the state unchanged.  \<open>move_down\<close> with
  \<open>0 \<le> r < count - 1\<close> exchanges the entries at \<open>r\<close> and \<open>r + 1\<close> and makes \<open>r + 1\<close> the
  current row; with the last row (or no row) selected it returns the state unchanged.
\<close>

theorem move_up_down_swap_neighbours:
  assumes "current_row (playlist_widget s) < count (playlist_widget s)"
  shows "(let w = playlist_widget s; row = current_row w; xs = items w; r = nat row in
            (if 0 < row
             then move_up s =
                    s\<lparr>playlist_widget :=
                        \<lparr>items = xs[r - 1 := xs ! r, r := xs ! (r - 1)],
                         current_row = row - 1\<rparr>\<rparr>
             else move_up s = s)
          \<and> (if 0 \<le> row \<and> row < count w - 1
             then move_down s =
                    s\<lparr>playlist_widget :=
                        \<lparr>items = xs[r := xs ! (r + 1), r + 1 := xs ! r],
                         current_row = row + 1\<rparr>\<rparr>
             else move_down s = s))"
proof -
  have up: "\<not> 0 < current_row (playlist_widget s) \<Longrightarrow> move_up s = s"
    by (simp add: move_up_def Let_def)
  have down: "\<not> (0 \<le> current_row (playlist_widget s)
                \<and> current_row (playlist_widget s) < count (playlist_widget s) - 1)
              \<Longrightarrow> move_down s = s"
    unfolding move_down_def Let_def by (rule if_not_P)
  show ?thesis
    unfolding Let_def
    using assms up down move_up_swap [of s] move_down_swap [of s]
    by (simp only: split: if_split) blast
qed

theorem move_up_down_swap_neighbours_witness:
  "(let s = \<lparr>root_folder = None, root_label = [], library = [], library_model = [],
             playlist_widget = \<lparr>items = [''a'', ''b'', ''c''], current_row = 1\<rparr>\<rparr>
    in current_row (playlist_widget s) < count (playlist_widget s)
       \<and> items (playlist_widget (move_up s)) = [''b'', ''a'', ''c'']
       \<and> items (playlist_widget (move_down s)) = [''a'', ''c'', ''b''])"
  using move_up_down_swap_neighbours
    [of "\<lparr>root_folder = None, root_label = [], library = [], library_model = [],
          playlist_widget = \<lparr>items = [''a'', ''b'', ''c''], current_row = 1\<rparr>\<rparr>"]
  by (simp add: count_def Let_def)

subsection \<open>Saving the playlist\<close>

lemma write_track_ok:
  assumes "saved_inside_root env rf sp = Inr b"
  shows "write_track env rf sp t f = (None, f @ line (spec_path_line env rf (parent sp) t))"
proof (cases rf)
  case None
  then show ?thesis by (simp add: write_track_def saved_inside_root_def spec_path_line_def)
next
  case (Some r)
  with assms obtain a c where a: "resolve env (parent sp) = Inr a" and c: "resolve env r = Inr c"
    and b: "b = (a = c)"
    by (auto simp: saved_inside_root_def split: sum.splits)
  then have same: "same_directory env (parent sp) r = b"
    by (simp add: same_directory_def)
  show ?thesis
    using assms same Some
    by (cases b) (simp_all add: write_track_def spec_path_line_def Let_def split: sum.splits)
qed

lemma write_tracks_ok:
  assumes "saved_inside_root env rf sp = Inr b"
  shows "write_tracks env rf sp ts f =
           (None, f @ concat (map (\<lambda>t. line ''#EXTINF:,'' @ line (spec_path_line env rf (parent sp) t)) ts))"
  by (induction ts arbitrary: f) (simp_all add: write_track_ok [OF assms])

lemma unlines_m3u8_lines:
  "unlines (m3u8_lines ps) = line ''#EXTM3U'' @ concat (map (\<lambda>p. line ''#EXTINF:,'' @ line p) ps)"
  by (induction ps) (simp_all add: unlines_def m3u8_lines_def)

lemma save_playlist_writes:
  assumes "items (playlist_widget s) \<noteq> []" and "strip name \<noteq> []" and "path \<noteq> []"
      and "open_w env (str_path (Path path)) = None"
      and "saved_inside_root env (root_folder s) (Path path) = Inr b"
  shows "save_playlist env (name, True) (path, flt) s d =
           (s,
            d(str_path (Path path) \<mapsto>
                unlines (m3u8_lines (map (spec_path_line env (root_folder s) (parent (Path path)))
                                         (items (playlist_widget s))))),
            [GetText ''Playlist name'' ''Enter playlist name (no extension):'',
             GetSaveFileName ''Save playlist as''
               (posix_join (case root_folder s of Some r \<Rightarrow> str_path r | None \<Rightarrow> expanduser_home env)
                  (strip name @ ''.m3u8''))
               ''M3U8 files (*.m3u8)'',
             Information ''Saved'' (''Playlist saved to '' @ str_path (Path path))])"
  using assms(1-4)
  by (simp add: save_playlist_def count_def Let_def write_tracks_ok [OF assms(5)]
      unlines_m3u8_lines map_map comp_def)

lemma text_lines_line:
  "CHR 0x0A \<notin> set l \<Longrightarrow> text_lines (line l @ rest) = l # text_lines rest"
  by (induction l) (auto simp: line_def)

lemma text_lines_unlines:
  "\<forall>l \<in> set ls. CHR 0x0A \<notin> set l \<Longrightarrow> text_lines (unlines ls) = ls"
  by (induction ls) (simp_all add: unlines_def text_lines_line)


lemma length_m3u8_lines: "length (m3u8_lines ps) = 2 * length ps + 1"
  by (induction ps) (simp_all add: m3u8_lines_def)

lemma set_m3u8_lines: "set (m3u8_lines ps) \<subseteq> {''#EXTM3U'', ''#EXTINF:,''} \<union> set ps"
  by (induction ps) (auto simp: m3u8_lines_def)

text \<open>
  Claim C6 (saving an empty playlist is refused).  With no item in the playlist,
  \<open>save_playlist\<close> shows the warning and no other dialog, whatever the user would have
  answered to the name and file dialogs, and returns the state of the program and the
  files on the disk as they were.
\<close>

theorem save_playlist_empty_refused:
  "items (playlist_widget s) = [] \<Longrightarrow>
   save_playlist env text_reply file_reply s d
     = (s, d, [Warning ''Nothing to save'' ''Playlist is empty.''])"
  by (simp add: save_playlist_def count_def)

theorem save_playlist_empty_refused_witness:
  "items (playlist_widget (example_app\<lparr>playlist_widget := \<lparr>items = [], current_row = - 1\<rparr>\<rparr>)) = []
   \<and> save_playlist example_env (''list'', True) (''/music/list.m3u8'', []) 
         (example_app\<lparr>playlist_widget := \<lparr>items = [], current_row = - 1\<rparr>\<rparr>) Map.empty
       = (example_app\<lparr>playlist_widget := \<lparr>items = [], current_row = - 1\<rparr>\<rparr>, Map.empty,
          [Warning ''Nothing to save'' ''Playlist is empty.''])"
  using save_playlist_empty_refused
    [of "example_app\<lparr>playlist_widget := \<lparr>items = [], current_row = - 1\<rparr>\<rparr>"
        example_env "(''list'', True)" "(''/music/list.m3u8'', [])" Map.empty]
  by simp

text \<open>
  Claim C9 (a blank playlist name aborts the save; otherwise the name is stripped).
  With a non-empty playlist and the name dialog confirmed: if the name consists of
  whitespace only (in particular if it is empty), only the name dialog is shown and the
  state and the disk are returned as they were; otherwise the name is a whitespace
  prefix, the stripped name and a whitespace suffix, the stripped name neither starts
  nor ends with whitespace, and the file dialog is opened next, on the default directory
  joined with the stripped name followed by \<open>.m3u8\<close>.
\<close>

theorem save_playlist_name_stripped:
  assumes "items (playlist_widget s) \<noteq> []"
  shows "(list_all isspace name \<longrightarrow>
            save_playlist env (name, True) file_reply s d
              = (s, d, [GetText ''Playlist name'' ''Enter playlist name (no extension):'']))
         \<and> (\<not> list_all isspace name \<longrightarrow>
              (\<exists>pre post. name = pre @ strip name @ post
                  \<and> list_all isspace pre \<and> list_all isspace post)
              \<and> \<not> isspace (hd (strip name)) \<and> \<not> isspace (last (strip name))
              \<and> (case save_playlist env (name, True) file_reply s d of
                    (s', d', evs) \<Rightarrow>
                      s' = s
                      \<and> take 2 evs =
                          [GetText ''Playlist name'' ''Enter playlist name (no extension):'',
                           GetSaveFileName ''Save playlist as''
                             (posix_join
                                (case root_folder s of
                                   Some r \<Rightarrow> str_path r
                                 | None \<Rightarrow> expanduser_home env)
                                (strip name @ ''.m3u8''))
                             ''M3U8 files (*.m3u8)'']))"
proof (intro conjI impI)
  assume "list_all isspace name"
  then have "strip name = []" by (simp add: strip_empty_iff)
  with assms show "save_playlist env (name, True) file_reply s d
      = (s, d, [GetText ''Playlist name'' ''Enter playlist name (no extension):''])"
    by (simp add: save_playlist_def count_def)
next
  assume "\<not> list_all isspace name"
  then have ne: "strip name \<noteq> []" by (simp add: strip_empty_iff)
  from strip_decomp [of name]
  show "\<exists>pre post. name = pre @ strip name @ post \<and> list_all isspace pre \<and> list_all isspace post"
    by blast
  from strip_decomp [of name] ne
  show "\<not> isspace (hd (strip name))" and "\<not> isspace (last (strip name))"
    by blast+
  from assms ne
  show "case save_playlist env (name, True) file_reply s d of
          (s', d', evs) \<Rightarrow>
            s' = s
            \<and> take 2 evs =
                [GetText ''Playlist name'' ''Enter playlist name (no extension):'',
                 GetSaveFileName ''Save playlist as''
                   (posix_join
                      (case root_folder s of
                         Some r \<Rightarrow> str_path r
                       | None \<Rightarrow> expanduser_home env)
                      (strip name @ ''.m3u8''))
                   ''M3U8 files (*.m3u8)'']"
    by (simp add: save_playlist_def count_def Let_def split: prod.splits option.splits)
qed


theorem save_playlist_name_stripped_witness:
  "items (playlist_widget example_app) \<noteq> []
   \<and> list_all isspace ''  ''
   \<and> save_playlist example_env (''  '', True) (''/music/list.m3u8'', []) example_app Map.empty
       = (example_app, Map.empty,
          [GetText ''Playlist name'' ''Enter playlist name (no extension):''])
   \<and> \<not> list_all isspace '' list ''
   \<and> take 2 (snd (snd (save_playlist example_env ('' list '', True) (''/music/list.m3u8'', [])
                         example_app Map.empty)))
       = [GetText ''Playlist name'' ''Enter playlist name (no extension):'',
          GetSaveFileName ''Save playlist as'' ''/music/list.m3u8'' ''M3U8 files (*.m3u8)'']"
proof -
  have h1: "items (playlist_widget example_app) \<noteq> []"
    by (simp add: example_app_def)
  have h2: "list_all isspace ''  ''" by code_simp
  have h3: "\<not> list_all isspace '' list ''" by code_simp
  have h4: "posix_join (str_path (Path ''/music'')) (strip '' list '' @ ''.m3u8'') = ''/music/list.m3u8''"
    by code_simp
  have r: "root_folder example_app = Some (Path ''/music'')"
    by (simp add: example_app_def)
  show ?thesis
    using save_playlist_name_stripped [OF h1, of "''  ''" example_env "(''/music/list.m3u8'', [])" Map.empty]
      save_playlist_name_stripped [OF h1, of "'' list ''" example_env "(''/music/list.m3u8'', [])" Map.empty]
      h1 h2 h3 h4 r
    by (auto split: prod.splits)
qed

text \<open>
  Claim C1 (the three-case rule for the path written for an entry).  When the playlist
  is not empty, a name is given, a file is chosen and can be opened, and resolving the
  two directories raises no exception, the file holds the header line and, for every
  entry \<open>t\<close> in order, the \<open>#EXTINF:,\<close> line and the line that the rule of the
  specification gives for \<open>t\<close>.  In the environment without symbolic links, saving the
  playlist \<open>[''A/song.mp3'', ''b.flac'']\<close> with root \<open>/music\<close> to
  \<open>/music/sub/list.m3u8\<close> writes the path lines \<open>../A/song.mp3\<close> and \<open>../b.flac\<close>.
\<close>

theorem save_playlist_path_rule:
  "(items (playlist_widget s) \<noteq> [] \<and> strip name \<noteq> [] \<and> path \<noteq> []
      \<and> open_w env (str_path (Path path)) = None
      \<and> \<not> isl (saved_inside_root env (root_folder s) (Path path))
    \<longrightarrow> (case save_playlist env (name, True) (path, flt) s d of
           (s', d', evs) \<Rightarrow>
             d' (str_path (Path path))
               = Some (unlines (m3u8_lines
                   (map (spec_path_line env (root_folder s) (parent (Path path)))
                        (items (playlist_widget s)))))))
   \<and> (case save_playlist example_env (''list'', True)
               (''/music/sub/list.m3u8'', ''M3U8 files (*.m3u8)'') example_app Map.empty of
         (s', d', evs) \<Rightarrow>
           d' ''/music/sub/list.m3u8''
             = Some (unlines (m3u8_lines [''../A/song.mp3'', ''../b.flac''])))"
proof (intro conjI impI)
  assume h: "items (playlist_widget s) \<noteq> [] \<and> strip name \<noteq> [] \<and> path \<noteq> []
      \<and> open_w env (str_path (Path path)) = None
      \<and> \<not> isl (saved_inside_root env (root_folder s) (Path path))"
  then obtain b where "saved_inside_root env (root_folder s) (Path path) = Inr b"
    by (cases "saved_inside_root env (root_folder s) (Path path)") simp_all
  with h show "case save_playlist env (name, True) (path, flt) s d of
           (s', d', evs) \<Rightarrow>
             d' (str_path (Path path))
               = Some (unlines (m3u8_lines
                   (map (spec_path_line env (root_folder s) (parent (Path path)))
                        (items (playlist_widget s)))))"
    by (simp add: save_playlist_writes)
next
  show "case save_playlist example_env (''list'', True)
               (''/music/sub/list.m3u8'', ''M3U8 files (*.m3u8)'') example_app Map.empty of
         (s', d', evs) \<Rightarrow>
           d' ''/music/sub/list.m3u8''
             = Some (unlines (m3u8_lines [''../A/song.mp3'', ''../b.flac'']))"
    by code_simp
qed

theorem save_playlist_path_rule_witness:
  "items (playlist_widget example_app) \<noteq> [] \<and> strip ''list'' \<noteq> [] \<and> ''/music/sub/list.m3u8'' \<noteq> []
   \<and> open_w example_env (str_path (Path ''/music/sub/list.m3u8'')) = None
   \<and> \<not> isl (saved_inside_root example_env (root_folder example_app) (Path ''/music/sub/list.m3u8''))
   \<and> map (spec_path_line example_env (root_folder example_app) (parent (Path ''/music/sub/list.m3u8'')))
         (items (playlist_widget example_app)) = [''../A/song.mp3'', ''../b.flac'']
   \<and> fst (snd (save_playlist example_env (''list'', True) (''/music/sub/list.m3u8'', [])
                  example_app Map.empty)) (str_path (Path ''/music/sub/list.m3u8''))
       = Some (unlines (m3u8_lines [''../A/song.mp3'', ''../b.flac'']))"
proof -
  have h1: "items (playlist_widget example_app) \<noteq> []"
    by (simp add: example_app_def)
  have h2: "strip ''list'' \<noteq> []" by code_simp
  have h3: "open_w example_env (str_path (Path ''/music/sub/list.m3u8'')) = None"
    by (simp add: example_env_def)
  have h4: "\<not> isl (saved_inside_root example_env (root_folder example_app) (Path ''/music/sub/list.m3u8''))"
    by code_simp
  have h5: "map (spec_path_line example_env (root_folder example_app) (parent (Path ''/music/sub/list.m3u8'')))
         (items (playlist_widget example_app)) = [''../A/song.mp3'', ''../b.flac'']"
    by code_simp
  show ?thesis
    using save_playlist_path_rule
      [of example_app "''list''" "''/music/sub/list.m3u8''" example_env "[]" Map.empty]
      h1 h2 h3 h4 h5
    by (auto split: prod.splits)
qed


text \<open>
  The playlist file is a text of lines, and an entry is written into it as it is.  An
  entry that itself contains a newline therefore takes more than one line of the file:
  the playlist of the single entry \<open>a\<close>, newline, \<open>b.mp3\<close>, saved into the root folder,
  gives a file of four lines (\<open>#EXTM3U\<close>, \<open>#EXTINF:,\<close>, \<open>a\<close>, \<open>b.mp3\<close>), not of the
  three lines that one header and one pair make.
\<close>

theorem save_playlist_file_format_counterexample:
  "fst (snd (save_playlist example_env (''list'', True) (''/music/list.m3u8'', [])
               (example_app\<lparr>playlist_widget :=
                  \<lparr>items = [''a'' @ [CHR 0x0A] @ ''b.mp3''], current_row = 0\<rparr>\<rparr>)
               Map.empty)) ''/music/list.m3u8''
     = Some (unlines [''#EXTM3U'', ''#EXTINF:,'', ''a'', ''b.mp3''])
   \<and> snd (snd (save_playlist example_env (''list'', True) (''/music/list.m3u8'', [])
               (example_app\<lparr>playlist_widget :=
                  \<lparr>items = [''a'' @ [CHR 0x0A] @ ''b.mp3''], current_row = 0\<rparr>\<rparr>)
               Map.empty))
     = [GetText ''Playlist name'' ''Enter playlist name (no extension):'',
        GetSaveFileName ''Save playlist as'' ''/music/list.m3u8'' ''M3U8 files (*.m3u8)'',
        Information ''Saved'' ''Playlist saved to /music/list.m3u8'']
   \<and> text_lines (unlines [''#EXTM3U'', ''#EXTINF:,'', ''a'', ''b.mp3''])
     = [''#EXTM3U'', ''#EXTINF:,'', ''a'', ''b.mp3'']
   \<and> length (text_lines (unlines [''#EXTM3U'', ''#EXTINF:,'', ''a'', ''b.mp3'']))
     \<noteq> 2 * length (items (playlist_widget (example_app\<lparr>playlist_widget :=
                  \<lparr>items = [''a'' @ [CHR 0x0A] @ ''b.mp3''], current_row = 0\<rparr>\<rparr>))) + 1"
  by code_simp

text \<open>
  Claim C3 (the format of the saved file), as amended.  Under the conditions of a
  completed save, for a playlist of \<open>N\<close> entries the file is the text made of the line
  \<open>#EXTM3U\<close> followed, for every entry in the order of the playlist, by the line
  \<open>#EXTINF:,\<close> and the written path followed by a newline: \<open>N\<close> pairs after one header,
  with nothing before the header (no byte-order mark) and nothing between the pieces.
  When no written path contains a newline, the file read line by line is exactly these
  \<open>2 * N + 1\<close> lines, and when moreover no written path is empty, none of them is
  blank.
\<close>

theorem save_playlist_file_format:
  assumes "items (playlist_widget s) \<noteq> []" and "strip name \<noteq> []" and "path \<noteq> []"
      and "open_w env (str_path (Path path)) = None"
      and "\<not> isl (saved_inside_root env (root_folder s) (Path path))"
  shows "(let tracks = items (playlist_widget s);
              ps = map (spec_path_line env (root_folder s) (parent (Path path))) tracks;
              content = line ''#EXTM3U'' @ concat (map (\<lambda>p. line ''#EXTINF:,'' @ line p) ps)
          in (case save_playlist env (name, True) (path, flt) s d of
                (s', d', evs) \<Rightarrow> d' (str_path (Path path)) = Some content)
             \<and> length ps = length tracks
             \<and> content = unlines (m3u8_lines ps)
             \<and> length (m3u8_lines ps) = 2 * length tracks + 1
             \<and> ((\<forall>p \<in> set ps. CHR 0x0A \<notin> set p) \<longrightarrow> text_lines content = m3u8_lines ps)
             \<and> ((\<forall>p \<in> set ps. p \<noteq> []) \<longrightarrow> [] \<notin> set (m3u8_lines ps)))"
proof -
  define ps where
    "ps = map (spec_path_line env (root_folder s) (parent (Path path))) (items (playlist_widget s))"
  define content where
    "content = line ''#EXTM3U'' @ concat (map (\<lambda>p. line ''#EXTINF:,'' @ line p) ps)"
  obtain b where b: "saved_inside_root env (root_folder s) (Path path) = Inr b"
    using assms(5) by (cases "saved_inside_root env (root_folder s) (Path path)") simp_all
  have t: "content = unlines (m3u8_lines ps)"
    by (simp add: content_def unlines_m3u8_lines)
  have 1: "case save_playlist env (name, True) (path, flt) s d of
             (s', d', evs) \<Rightarrow> d' (str_path (Path path)) = Some content"
    using assms(1-4) b by (simp add: save_playlist_writes t ps_def)
  have 2: "length ps = length (items (playlist_widget s))"
    by (simp add: ps_def)
  have 3: "length (m3u8_lines ps) = 2 * length (items (playlist_widget s)) + 1"
    by (simp add: length_m3u8_lines 2)
  have 4: "text_lines content = m3u8_lines ps" if "\<forall>p \<in> set ps. CHR 0x0A \<notin> set p"
  proof -
    have "\<forall>l \<in> set (m3u8_lines ps). CHR 0x0A \<notin> set l"
      using that set_m3u8_lines [of ps] by auto
    then show ?thesis by (simp add: t text_lines_unlines)
  qed
  have 5: "[] \<notin> set (m3u8_lines ps)" if "\<forall>p \<in> set ps. p \<noteq> []"
    using that set_m3u8_lines [of ps] by auto
  show ?thesis
    unfolding Let_def ps_def [symmetric] content_def [symmetric]
    using 1 2 t 3 4 5 by blast
qed

theorem save_playlist_file_format_witness:
  "items (playlist_widget example_app) \<noteq> [] \<and> strip ''list'' \<noteq> [] \<and> ''/music/list.m3u8'' \<noteq> []
   \<and> open_w example_env (str_path (Path ''/music/list.m3u8'')) = None
   \<and> \<not> isl (saved_inside_root example_env (root_folder example_app) (Path ''/music/list.m3u8''))
   \<and> fst (snd (save_playlist example_env (''list'', True) (''/music/list.m3u8'', [])
                  example_app Map.empty)) ''/music/list.m3u8''
       = Some (unlines [''#EXTM3U'', ''#EXTINF:,'', ''A/song.mp3'', ''#EXTINF:,'', ''b.flac''])
   \<and> text_lines (unlines [''#EXTM3U'', ''#EXTINF:,'', ''A/song.mp3'', ''#EXTINF:,'', ''b.flac''])
       = [''#EXTM3U'', ''#EXTINF:,'', ''A/song.mp3'', ''#EXTINF:,'', ''b.flac'']"
proof -
  have h1: "items (playlist_widget example_app) \<noteq> []"
    by (simp add: example_app_def)
  have h2: "strip ''list'' \<noteq> []" by code_simp
  have h3: "open_w example_env (str_path (Path ''/music/list.m3u8'')) = None"
    by (simp add: example_env_def)
  have h4: "\<not> isl (saved_inside_root example_env (root_folder example_app) (Path ''/music/list.m3u8''))"
    by code_simp
  have h5: "map (spec_path_line example_env (root_folder example_app) (parent (Path ''/music/list.m3u8'')))
         (items (playlist_widget example_app)) = [''A/song.mp3'', ''b.flac'']"
    by code_simp
  have h6: "str_path (Path ''/music/list.m3u8'') = ''/music/list.m3u8''"
    by code_simp
  have h7: "m3u8_lines [''A/song.mp3'', ''b.flac'']
      = [''#EXTM3U'', ''#EXTINF:,'', ''A/song.mp3'', ''#EXTINF:,'', ''b.flac'']"
    by (simp add: m3u8_lines_def)
  have h8: "\<forall>p \<in> set [''A/song.mp3'', ''b.flac'']. CHR 0x0A \<notin> set p"
    by simp
  show ?thesis
    using save_playlist_file_format [OF h1 h2 _ h3 h4, of "[]" Map.empty] h1 h2 h3 h4 h8
    unfolding Let_def h5 h6 h7
    by (auto split: prod.splits)
qed


subsection \<open>Parsed paths\<close>

lemma split_sep_nonempty: "split_sep s \<noteq> []"
  by (induction s) simp_all

lemma split_sep_append:
  "split_sep (a @ CHR ''/'' # b) = split_sep a @ split_sep b"
  by (induction a) (simp_all add: split_sep_nonempty)

lemma split_sep_no_sep: "CHR ''/'' \<notin> set n \<Longrightarrow> split_sep n = [n]"
  by (induction n) auto

lemma split_sep_comps: "x \<in> set (split_sep s) \<Longrightarrow> CHR ''/'' \<notin> set x"
proof (induction s arbitrary: x)
  case Nil
  then show ?case by simp
next
  case (Cons c s)
  show ?case
  proof (cases "c = CHR ''/''")
    case True
    with Cons show ?thesis by auto
  next
    case False
    obtain y ys where sp: "split_sep s = y # ys"
      using split_sep_nonempty [of s] by (cases "split_sep s") auto
    with Cons.prems False have "x = c # y \<or> x \<in> set ys" by simp
    with Cons.IH sp False show ?thesis by auto
  qed
qed

lemma split_sep_join_sep:
  "xs \<noteq> [] \<Longrightarrow> \<forall>x \<in> set xs. CHR ''/'' \<notin> set x \<Longrightarrow> split_sep (join_sep xs) = xs"
proof (induction xs rule: join_sep.induct)
  case (3 x y ys)
  then show ?case by (simp add: split_sep_append split_sep_no_sep)
qed (simp_all add: split_sep_no_sep)

lemma join_sep_nonempty:
  "xs \<noteq> [] \<Longrightarrow> \<forall>x \<in> set xs. x \<noteq> [] \<Longrightarrow> join_sep xs \<noteq> []"
  by (induction xs rule: join_sep.induct) simp_all

lemma join_sep_hd:
  "xs \<noteq> [] \<Longrightarrow> \<forall>x \<in> set xs. x \<noteq> [] \<Longrightarrow> hd (join_sep xs) = hd (hd xs)"
  by (induction xs rule: join_sep.induct) simp_all

lemma suffix_last_join_sep: "xs \<noteq> [] \<Longrightarrow> suffix (last xs) (join_sep xs)"
proof (induction xs rule: join_sep.induct)
  case (3 x y ys)
  then have "suffix (last (y # ys)) (join_sep (y # ys))" by simp
  then have "suffix (last (y # ys)) ((x @ ''/'') @ join_sep (y # ys))"
    by (rule suffix_appendI)
  then show ?case by simp
qed simp_all

lemma splitroot_append_rel:
  assumes "s \<noteq> []" and "x \<noteq> []" and "hd x \<noteq> CHR ''/''"
  shows "splitroot (s @ x) = (fst (splitroot s), snd (splitroot s) @ x)"
  using assms
  apply (cases s; cases "tl s"; cases "tl (tl s)"; cases x)
  apply (auto simp: splitroot_def)
  done

lemma splitroot_append_sep:
  assumes "s \<noteq> []" and "last s \<noteq> CHR ''/''"
  shows "splitroot (s @ x) = (fst (splitroot s), snd (splitroot s) @ x)"
  using assms
  apply (cases s; cases "tl s"; cases "tl (tl s)")
  apply (auto simp: splitroot_def split: if_splits)
  done


lemma valid_name_comps:
  assumes "valid_name n"
  shows "filter (\<lambda>x. x \<noteq> [] \<and> x \<noteq> ''.'') (split_sep n) = [n]"
  using assms by (simp add: valid_name_def split_sep_no_sep)

lemma Path_valid_name: "valid_name n \<Longrightarrow> Path n = \<lparr>root = [], tail = [n]\<rparr>"
proof -
  assume v: "valid_name n"
  then have "take 1 n \<noteq> ''/''" by (cases n) (auto simp: valid_name_def)
  then have "splitroot n = ([], n)" by (simp add: splitroot_def)
  then show ?thesis by (simp add: Path_def valid_name_comps [OF v])
qed

lemma snd_splitroot_suffix: "suffix (snd (splitroot s)) s"
  by (auto simp: splitroot_def suffix_drop)

lemma Path_posix_join:
  assumes v: "valid_name n"
  shows "Path (posix_join s n) = \<lparr>root = root (Path s), tail = tail (Path s) @ [n]\<rparr>"
proof -
  from v have n: "n \<noteq> []" "hd n \<noteq> CHR ''/''" "take 1 n \<noteq> ''/''" "CHR ''/'' \<notin> set n"
    by (cases n; auto simp: valid_name_def)+
  let ?keep = "\<lambda>x. x \<noteq> [] \<and> x \<noteq> ''.''"
  consider (empty) "s = []" | (slash) "s \<noteq> []" "last s = CHR ''/''"
    | (other) "s \<noteq> []" "last s \<noteq> CHR ''/''" by blast
  then show ?thesis
  proof cases
    case empty
    then have "posix_join s n = n" using n by (simp add: posix_join_def)
    moreover have "Path [] = \<lparr>root = [], tail = []\<rparr>" by (simp add: Path_def splitroot_def)
    ultimately show ?thesis using Path_valid_name [OF v] empty by simp
  next
    case slash
    then have j: "posix_join s n = s @ n" using n by (simp add: posix_join_def)
    have sr: "splitroot (s @ n) = (fst (splitroot s), snd (splitroot s) @ n)"
      using splitroot_append_rel [OF slash(1) n(1) n(2)] .
    define rel where "rel = snd (splitroot s)"
    have "filter ?keep (split_sep (rel @ n)) = filter ?keep (split_sep rel) @ [n]"
    proof (cases "rel = []")
      case True
      then show ?thesis using valid_name_comps [OF v] by simp
    next
      case False
      have "suffix rel s" unfolding rel_def by (rule snd_splitroot_suffix)
      with False slash have "last rel = CHR ''/''"
        by (auto simp: suffix_def)
      with False obtain r' where r': "rel = r' @ ''/''"
        by (metis append_butlast_last_id)
      have "split_sep (rel @ n) = split_sep r' @ [n]"
        using n by (simp add: r' split_sep_append split_sep_no_sep)
      moreover have "split_sep rel = split_sep r' @ [[]]"
        by (simp add: r' split_sep_append)
      ultimately show ?thesis using v by (simp add: valid_name_def)
    qed
    then show ?thesis
      unfolding j Path_def sr rel_def by (simp add: case_prod_beta)
  next
    case other
    then have j: "posix_join s n = s @ (CHR ''/'' # n)" using n by (simp add: posix_join_def)
    have sr: "splitroot (s @ (CHR ''/'' # n)) = (fst (splitroot s), snd (splitroot s) @ (CHR ''/'' # n))"
      using splitroot_append_sep [OF other] .
    have "filter ?keep (split_sep (snd (splitroot s) @ CHR ''/'' # n))
            = filter ?keep (split_sep (snd (splitroot s))) @ [n]"
      using valid_name_comps [OF v] by (simp add: split_sep_append)
    then show ?thesis
      unfolding j Path_def sr by (simp add: case_prod_beta)
  qed
qed

lemma wf_path_Path: "wf_path (Path s)"
proof -
  have "fst (splitroot s) \<in> {[], ''/'', ''//''}"
    by (cases s; cases "tl s") (auto simp: splitroot_def)
  moreover have "list_all (\<lambda>x. x \<noteq> [] \<and> x \<noteq> ''.'' \<and> CHR ''/'' \<notin> set x)
      (filter (\<lambda>x. x \<noteq> [] \<and> x \<noteq> ''.'') (split_sep (snd (splitroot s))))"
    by (auto simp: list_all_iff dest: split_sep_comps)
  ultimately show ?thesis
    by (simp add: wf_path_def Path_def case_prod_beta)
qed

text \<open>The root folder is only ever set by \<open>choose_root\<close>, to a path that \<open>Path\<close>
  returns, so every state the program reaches is well formed.\<close>

lemma choose_root_wf_app: "wf_app s \<Longrightarrow> wf_app (fst (choose_root env reply s))"
  by (simp add: choose_root_def wf_app_def wf_path_Path Let_def)

lemma Path_str_path:
  assumes "wf_path p"
  shows "Path (str_path p) = p"
proof -
  let ?keep = "\<lambda>x. x \<noteq> [] \<and> x \<noteq> ''.''"
  from assms have r: "root p = [] \<or> root p = ''/'' \<or> root p = ''//''"
    and t: "\<forall>x \<in> set (tail p). x \<noteq> [] \<and> x \<noteq> ''.'' \<and> CHR ''/'' \<notin> set x"
    by (auto simp: wf_path_def list_all_iff)
  have keep: "filter ?keep (tail p) = tail p" using t by (simp add: filter_id_conv)
  show ?thesis
  proof (cases "tail p = []")
    case True
    with r have "Path (str_path p) = \<lparr>root = root p, tail = []\<rparr>"
      by (auto simp: str_path_def Path_def splitroot_def)
    with True show ?thesis by simp
  next
    case False
    define j where "j = join_sep (tail p)"
    have j: "j \<noteq> []" "hd j \<noteq> CHR ''/''" "split_sep j = tail p"
      using False t join_sep_nonempty [of "tail p"] join_sep_hd [of "tail p"]
        split_sep_join_sep [of "tail p"]
      unfolding j_def
      by (auto simp: neq_Nil_conv)
    then obtain c cs where c: "j = c # cs" "c \<noteq> CHR ''/''" by (cases j) auto
    have s: "str_path p = root p @ j"
      using j by (simp add: str_path_def j_def)
    have "splitroot (root p @ j) = (root p, j)"
      using r c by (auto simp: splitroot_def)
    then have "Path (str_path p) = \<lparr>root = root p, tail = tail p\<rparr>"
      by (simp add: Path_def s j keep)
    then show ?thesis by simp
  qed
qed

lemma is_relative_to_iff:
  "is_relative_to p q \<longleftrightarrow> root q = root p \<and> prefix (tail q) (tail p) \<and> path.more q = path.more p"
proof -
  have "is_relative_to p q \<longleftrightarrow> (\<exists>k \<le> length (tail p). q = p\<lparr>tail := take k (tail p)\<rparr>)"
  proof -
    have "q = p \<longleftrightarrow> q = p\<lparr>tail := take (length (tail p)) (tail p)\<rparr>" by simp
    moreover have "q \<in> set (parents p) \<longleftrightarrow> (\<exists>k < length (tail p). q = p\<lparr>tail := take k (tail p)\<rparr>)"
      by (auto simp: parents_def)
    ultimately show ?thesis
      unfolding is_relative_to_def by (metis le_eq_less_or_eq)
  qed
  also have "\<dots> \<longleftrightarrow> root q = root p \<and> prefix (tail q) (tail p) \<and> path.more q = path.more p"
  proof
    assume "\<exists>k \<le> length (tail p). q = p\<lparr>tail := take k (tail p)\<rparr>"
    then obtain k where "q = p\<lparr>tail := take k (tail p)\<rparr>" by blast
    then show "root q = root p \<and> prefix (tail q) (tail p) \<and> path.more q = path.more p"
      by (simp add: take_is_prefix)
  next
    assume a: "root q = root p \<and> prefix (tail q) (tail p) \<and> path.more q = path.more p"
    then obtain zs where "tail p = tail q @ zs" by (auto simp: prefix_def)
    then have "tail q = take (length (tail q)) (tail p)" "length (tail q) \<le> length (tail p)"
      by simp_all
    with a have "q = p\<lparr>tail := take (length (tail q)) (tail p)\<rparr>" by (cases p; cases q) simp
    with \<open>length (tail q) \<le> length (tail p)\<close> show "\<exists>k \<le> length (tail p). q = p\<lparr>tail := take k (tail p)\<rparr>"
      by blast
  qed
  finally show ?thesis .
qed


subsection \<open>Scanning a folder\<close>

text \<open>The equations of the functions over directory trees are applied where they are
  needed, not by the simplifier on its own.\<close>

declare walk.simps [simp del] tree_files.simps [simp del] wf_entries.simps [simp del]

lemma joinpath_valid_name:
  "valid_name f \<Longrightarrow> joinpath p f = \<lparr>root = root p, tail = tail p @ [f]\<rparr>"
  by (simp add: joinpath_def Path_valid_name)

lemma relative_to_below:
  fixes start :: path
  shows "relative_to \<lparr>root = root start, tail = tail start @ xs\<rparr> start = Inr \<lparr>root = [], tail = xs\<rparr>"
    and "is_relative_to \<lparr>root = root start, tail = tail start @ xs\<rparr> start"
  by (simp_all add: relative_to_def is_relative_to_iff)

lemma str_path_relative:
  assumes "xs \<noteq> []" and "\<forall>x \<in> set xs. x \<noteq> []"
  shows "str_path \<lparr>root = [], tail = xs\<rparr> = join_sep xs"
  using join_sep_nonempty [OF assms] by (simp add: str_path_def)

lemma scan_files_wf:
  assumes rf: "rf = None \<or> rf = Some start"
      and dir: "Path dirpath = \<lparr>root = root start, tail = tail start @ ds\<rparr>"
      and ds: "\<forall>d \<in> set ds. valid_name d"
      and files: "\<forall>f \<in> set files. valid_name f"
  shows "scan_files rf start dirpath files acc
           = Inr (acc @ map (\<lambda>f. join_sep (ds @ [f])) (filter has_audio_ext files))"
  using files
proof (induction files arbitrary: acc)
  case Nil
  then show ?case by simp
next
  case (Cons f files)
  then have v: "valid_name f" by simp
  have full: "joinpath (Path dirpath) f = \<lparr>root = root start, tail = tail start @ (ds @ [f])\<rparr>"
    by (simp add: joinpath_valid_name [OF v] dir)
  have ne: "\<forall>x \<in> set (ds @ [f]). x \<noteq> []"
    using ds v by (auto simp: valid_name_def)
  have str: "str_path \<lparr>root = [], tail = ds @ [f]\<rparr> = join_sep (ds @ [f])"
    using str_path_relative [OF _ ne] by simp
  show ?case
  proof (cases "has_audio_ext f")
    case False
    then have "\<not> endswith (lower f) AUDIO_EXTS" by (simp add: has_audio_ext_def)
    with Cons False show ?thesis by simp
  next
    case True
    then have a: "endswith (lower f) AUDIO_EXTS" by (simp add: has_audio_ext_def)
    have "scan_files rf start dirpath (f # files) acc
            = scan_files rf start dirpath files (acc @ [join_sep (ds @ [f])])"
      using rf a
      by (auto simp: Let_def full relative_to_below str simp del: append_assoc)
    with Cons True show ?thesis by simp
  qed
qed

lemma scan_dirs_append:
  "scan_dirs rf start (xs @ ys) acc
     = (case scan_dirs rf start xs acc of Inl e \<Rightarrow> Inl e | Inr a \<Rightarrow> scan_dirs rf start ys a)"
  by (induction xs arbitrary: acc) (auto split: sum.splits)

lemma scan_dirs_concat:
  assumes "\<And>x acc. x \<in> set xs \<Longrightarrow> scan_dirs rf start (g x) acc = Inr (acc @ h x)"
  shows "scan_dirs rf start (concat (map g xs)) acc = Inr (acc @ concat (map h xs))"
  using assms by (induction xs arbitrary: acc) (simp_all add: scan_dirs_append)


lemma tree_files_nonempty: "p \<in> set (tree_files es) \<Longrightarrow> p \<noteq> []"
  by (subst (asm) tree_files.simps) (auto simp del: tree_files.simps split: entry.splits)

lemma filter_last_map_Cons:
  "\<forall>p \<in> set ps. p \<noteq> [] \<Longrightarrow>
   filter (\<lambda>p. Q (last p)) (map ((#) n) ps) = map ((#) n) (filter (\<lambda>p. Q (last p)) ps)"
  by (induction ps) simp_all

lemma scan_dirs_walk:
  assumes rf: "rf = None \<or> rf = Some start"
  shows "wf_entries es \<Longrightarrow> Path dirpath = \<lparr>root = root start, tail = tail start @ ds\<rparr>
         \<Longrightarrow> \<forall>d \<in> set ds. valid_name d
         \<Longrightarrow> scan_dirs rf start (walk dirpath es) acc
               = Inr (acc @ map (\<lambda>p. join_sep (ds @ p))
                              (filter (\<lambda>p. has_audio_ext (last p)) (tree_files es)))"
proof (induction dirpath es arbitrary: ds acc rule: walk.induct)
  case (1 dirpath es)
  let ?A = "\<lambda>p. has_audio_ext (last p)"
  let ?J = "\<lambda>ds p. join_sep (ds @ p)"
  let ?files = "map fst (filter (\<lambda>(n, k). k = File) es)"
  let ?g = "\<lambda>(n, k). case k of Dir sub \<Rightarrow> walk (posix_join dirpath n) sub | _ \<Rightarrow> []"
  let ?h = "\<lambda>(n, k). case k of Dir sub \<Rightarrow> map ((#) n) (tree_files sub) | _ \<Rightarrow> []"
  let ?r = "\<lambda>x. map (?J ds) (filter ?A (?h x))"
  have wf: "\<forall>(n, k) \<in> set es. valid_name n \<and> (\<forall>sub. k = Dir sub \<longrightarrow> wf_entries sub)"
    using "1.prems"(1)
    by (subst (asm) wf_entries.simps) (auto simp del: wf_entries.simps simp: list_all_iff)
  have files: "\<forall>f \<in> set ?files. valid_name f"
    using wf by (auto simp del: wf_entries.simps)
  have own: "scan_files rf start dirpath ?files acc
               = Inr (acc @ map (\<lambda>f. join_sep (ds @ [f])) (filter has_audio_ext ?files))"
    by (rule scan_files_wf [OF rf "1.prems"(2) "1.prems"(3) files])
  have sub: "scan_dirs rf start (?g x) acc' = Inr (acc' @ ?r x)" if x: "x \<in> set es" for x acc'
  proof (cases x)
    case (Pair n k)
    show ?thesis
    proof (cases k)
      case (Dir sub)
      from x Pair Dir wf have n: "valid_name n" and wsub: "wf_entries sub"
        by (auto simp del: wf_entries.simps)
      have p: "Path (posix_join dirpath n) = \<lparr>root = root start, tail = tail start @ (ds @ [n])\<rparr>"
        by (simp add: Path_posix_join [OF n] "1.prems"(2))
      have d: "\<forall>d \<in> set (ds @ [n]). valid_name d"
        using "1.prems"(3) n by simp
      have ih: "scan_dirs rf start (walk (posix_join dirpath n) sub) acc'
              = Inr (acc' @ map (?J (ds @ [n])) (filter ?A (tree_files sub)))"
        using "1.IH" [OF x Pair [symmetric] Dir wsub p d] .
      have ne: "\<forall>p \<in> set (tree_files sub). p \<noteq> []"
        using tree_files_nonempty by blast
      have fm: "filter ?A (map ((#) n) (tree_files sub))
                       = map ((#) n) (filter ?A (tree_files sub))"
        by (rule filter_last_map_Cons) (rule ne)
      have "?g x = walk (posix_join dirpath n) sub"
        by (simp add: Pair Dir del: walk.simps)
      moreover have "?r x = map (?J (ds @ [n])) (filter ?A (tree_files sub))"
        by (simp add: Pair Dir fm comp_def del: tree_files.simps)
      ultimately show ?thesis
        using ih by (simp only:)
    qed (simp_all add: Pair del: walk.simps tree_files.simps)
  qed
  have w: "walk dirpath es = (dirpath, ?files) # concat (map ?g es)"
    by (fact walk.simps)
  have t: "tree_files es = map (\<lambda>n. [n]) ?files @ concat (map ?h es)"
    by (fact tree_files.simps)
  have "scan_dirs rf start (walk dirpath es) acc
          = scan_dirs rf start (concat (map ?g es))
              (acc @ map (\<lambda>f. join_sep (ds @ [f])) (filter has_audio_ext ?files))"
    unfolding w by (simp only: scan_dirs.simps own sum.case)
  also have "\<dots> = Inr ((acc @ map (\<lambda>f. join_sep (ds @ [f])) (filter has_audio_ext ?files))
                        @ concat (map ?r es))"
    by (rule scan_dirs_concat) (rule sub)
  finally have res: "scan_dirs rf start (walk dirpath es) acc
      = Inr ((acc @ map (\<lambda>f. join_sep (ds @ [f])) (filter has_audio_ext ?files))
             @ concat (map ?r es))" .
  have eq: "map (?J ds) (filter ?A (tree_files es))
      = map (\<lambda>f. join_sep (ds @ [f])) (filter has_audio_ext ?files) @ concat (map ?r es)"
    unfolding t
    by (simp add: filter_map comp_def map_concat filter_concat del: tree_files.simps walk.simps)
  show ?case
    unfolding res eq by (simp only: append_assoc)
qed


lemma walk_below:
  "(dirpath', files) \<in> set (walk dirpath es) \<Longrightarrow> wf_entries es
   \<Longrightarrow> Path dirpath = \<lparr>root = root start, tail = tail start @ ds\<rparr>
   \<Longrightarrow> (\<exists>ds'. Path dirpath' = \<lparr>root = root start, tail = tail start @ ds'\<rparr>)
        \<and> (\<forall>f \<in> set files. valid_name f)"
proof (induction dirpath es arbitrary: ds rule: walk.induct)
  case (1 dirpath es)
  let ?files = "map fst (filter (\<lambda>(n, k). k = File) es)"
  let ?g = "\<lambda>(n, k). case k of Dir sub \<Rightarrow> walk (posix_join dirpath n) sub | _ \<Rightarrow> []"
  have wf: "\<forall>(n, k) \<in> set es. valid_name n \<and> (\<forall>sub. k = Dir sub \<longrightarrow> wf_entries sub)"
    using "1.prems"(2)
    by (subst (asm) wf_entries.simps) (auto simp del: wf_entries.simps simp: list_all_iff)
  have w: "walk dirpath es = (dirpath, ?files) # concat (map ?g es)"
    by (fact walk.simps)
  from "1.prems"(1) consider (own) "(dirpath', files) = (dirpath, ?files)"
    | (sub) x where "x \<in> set es" "(dirpath', files) \<in> set (?g x)"
    unfolding w by auto
  then show ?case
  proof cases
    case own
    then show ?thesis using wf "1.prems"(3) by (auto simp del: wf_entries.simps walk.simps)
  next
    case sub
    obtain n k where x: "x = (n, k)" by (cases x)
    show ?thesis
    proof (cases k)
      case (Dir sb)
      from sub(1) x Dir wf have n: "valid_name n" and wsub: "wf_entries sb"
        by (auto simp del: wf_entries.simps)
      have p: "Path (posix_join dirpath n) = \<lparr>root = root start, tail = tail start @ (ds @ [n])\<rparr>"
        by (simp add: Path_posix_join [OF n] "1.prems"(3))
      have m: "(dirpath', files) \<in> set (walk (posix_join dirpath n) sb)"
        using sub(2) by (simp add: x Dir del: walk.simps)
      show ?thesis
        using "1.IH" [OF sub(1) x [symmetric] Dir m wsub p] .
    next
      case File
      with sub(2) x show ?thesis by (simp del: walk.simps)
    next
      case DirLink
      with sub(2) x show ?thesis by (simp del: walk.simps)
    qed
  qed
qed

lemma scan_folder_wf:
  assumes env: "wf_env env" and app: "wf_app s" and st: "scan_start s reply = Some start"
  shows "scan_folder env reply s
           = Inr (s\<lparr>library := sort_key lower (audio_files_below env start),
                    library_model := sort_key lower (audio_files_below env start)\<rparr>,
                  (case root_folder s of
                     None \<Rightarrow> [GetExistingDirectory ''Select Folder to Scan'' (expanduser_home env)]
                   | Some r \<Rightarrow> [])
                  @ [Information ''Scan Complete''
                       (''Found '' @ str_nat (length (audio_files_below env start))
                          @ '' audio files.'')])"
proof -
  have wfp: "wf_path start"
    using app st by (auto simp: wf_app_def scan_start_def wf_path_Path split: option.splits if_splits)
  have rf: "root_folder s = None \<or> root_folder s = Some start"
    using st by (auto simp: scan_start_def split: option.splits)
  have p: "Path (str_path start) = \<lparr>root = root start, tail = tail start @ []\<rparr>"
    using Path_str_path [OF wfp] by simp
  have dirs: "scan_dirs (root_folder s) start (os_walk env (str_path start)) []
                = Inr (audio_files_below env start)"
  proof (cases "scandir env (str_path start)")
    case None
    then show ?thesis
      by (simp add: os_walk_def audio_files_below_def listing_def tree_files.simps [of "[]"])
  next
    case (Some es)
    then have "wf_entries es" using env by (auto simp: wf_env_def)
    from scan_dirs_walk [OF rf this p, of "[]"]
    show ?thesis
      by (simp add: os_walk_def audio_files_below_def listing_def Some
          del: walk.simps tree_files.simps)
  qed
  show ?thesis
  proof (cases "root_folder s")
    case None
    with st have "reply \<noteq> []" "start = Path reply"
      by (auto simp: scan_start_def split: if_splits)
    with None dirs show ?thesis
      by (simp add: scan_folder_def Let_def populate_library_def populate_rows_eq)
  next
    case (Some r)
    with st have "start = r" by (simp add: scan_start_def)
    with Some dirs show ?thesis
      by (simp add: scan_folder_def Let_def populate_library_def populate_rows_eq)
  qed
qed

lemma has_audio_ext_join_sep:
  assumes "p \<noteq> []" and "has_audio_ext (last p)"
  shows "has_audio_ext (join_sep p)"
proof -
  from assms(2) obtain e where e: "e \<in> set AUDIO_EXTS" "suffix e (lower (last p))"
    by (auto simp: has_audio_ext_def endswith_def list_ex_iff)
  have "suffix (lower (last p)) (lower (join_sep p))"
    unfolding lower_def by (rule map_mono_suffix) (rule suffix_last_join_sep [OF assms(1)])
  with e(2) have "suffix e (lower (join_sep p))" by (rule suffix_order.trans)
  with e(1) show ?thesis
    by (auto simp: has_audio_ext_def endswith_def list_ex_iff)
qed

lemma audio_files_below_ext: "e \<in> set (audio_files_below env start) \<Longrightarrow> has_audio_ext e"
  by (auto simp: audio_files_below_def simp del: tree_files.simps
      intro!: has_audio_ext_join_sep dest: tree_files_nonempty)

subsection \<open>The scan in the example environment\<close>

lemma example_music: "str_path (Path ''/music'') = ''/music''"
  by code_simp

lemma example_listing:
  "listing example_env (Path ''/music'')
     = [(''b.flac'', File), (''A'', Dir [(''song.mp3'', File), (''cover.jpg'', File)])]"
  by (simp add: listing_def example_music) (simp add: example_env_def)

lemma example_tree_sub:
  "tree_files [(''song.mp3'', File), (''cover.jpg'', File)] = [[''song.mp3''], [''cover.jpg'']]"
  by (subst tree_files.simps) simp

lemma example_tree_files:
  "tree_files [(''b.flac'', File), (''A'', Dir [(''song.mp3'', File), (''cover.jpg'', File)])]
     = [[''b.flac''], [''A'', ''song.mp3''], [''A'', ''cover.jpg'']]"
  by (subst tree_files.simps) (simp add: example_tree_sub)

lemma example_exts:
  "has_audio_ext ''b.flac''" "has_audio_ext ''song.mp3''" "\<not> has_audio_ext ''cover.jpg''"
  by code_simp+

lemma example_sorted:
  "sort_key lower [''b.flac'', ''A/song.mp3''] = [''A/song.mp3'', ''b.flac'']"
  by code_simp

lemma example_filtered:
  "filter (\<lambda>p. has_audio_ext (last p)) [[''b.flac''], [''A'', ''song.mp3''], [''A'', ''cover.jpg'']]
     = [[''b.flac''], [''A'', ''song.mp3'']]"
  using example_exts by simp

lemma example_audio_files:
  "audio_files_below example_env (Path ''/music'') = [''b.flac'', ''A/song.mp3'']"
  unfolding audio_files_below_def example_listing example_tree_files example_filtered
  by simp

lemma example_library:
  "sort_key lower (audio_files_below example_env (Path ''/music'')) = [''A/song.mp3'', ''b.flac'']"
  by (simp only: example_audio_files example_sorted)

lemma example_subdir: "posix_join ''/music'' ''A'' = ''/music/A''"
  by code_simp

lemma example_walk_sub:
  "walk ''/music/A'' [(''song.mp3'', File), (''cover.jpg'', File)]
     = [(''/music/A'', [''song.mp3'', ''cover.jpg''])]"
  by (subst walk.simps) simp

lemma example_walk_top:
  "walk ''/music'' [(''b.flac'', File), (''A'', Dir [(''song.mp3'', File), (''cover.jpg'', File)])]
     = (''/music'', [''b.flac''])
       # walk (posix_join ''/music'' ''A'') [(''song.mp3'', File), (''cover.jpg'', File)]"
  by (subst walk.simps) simp

lemma example_scandir:
  "scandir example_env ''/music''
     = Some [(''b.flac'', File), (''A'', Dir [(''song.mp3'', File), (''cover.jpg'', File)])]"
  by (simp add: example_env_def)

lemma example_walk:
  "os_walk example_env (str_path (Path ''/music''))
     = [(''/music'', [''b.flac'']), (''/music/A'', [''song.mp3'', ''cover.jpg''])]"
  by (simp only: os_walk_def example_music example_scandir option.case example_walk_top
      example_subdir example_walk_sub)

lemma example_valid_names:
  "valid_name ''b.flac''" "valid_name ''A''" "valid_name ''song.mp3''" "valid_name ''cover.jpg''"
  by code_simp+

lemma example_wf_sub: "wf_entries [(''song.mp3'', File), (''cover.jpg'', File)]"
  by (subst wf_entries.simps) (simp add: example_valid_names)

lemma example_wf_top:
  "wf_entries [(''b.flac'', File), (''A'', Dir [(''song.mp3'', File), (''cover.jpg'', File)])]"
  by (subst wf_entries.simps) (simp add: example_valid_names example_wf_sub)

lemma example_wf:
  "wf_env example_env" "wf_app example_app" "scan_start example_app [] = Some (Path ''/music'')"
proof -
  show "wf_env example_env"
    unfolding wf_env_def example_env_def
    by (auto simp: example_wf_top split: if_splits)
  show "wf_app example_app"
    by (simp add: wf_app_def example_app_def wf_path_Path)
  show "scan_start example_app [] = Some (Path ''/music'')"
    by (simp add: scan_start_def example_app_def)
qed

lemma example_count:
  "str_nat (length (audio_files_below example_env (Path ''/music''))) = ''2''"
  unfolding example_audio_files by code_simp

subsection \<open>Properties of the scan\<close>

lemma scan_files_branches:
  "scan_files rf start dirpath (f # files) track_list =
     (if endswith (lower f) AUDIO_EXTS then
        (case (if records_relative_to_start rf (joinpath (Path dirpath) f)
               then relative_to (joinpath (Path dirpath) f) start
               else relative_to (joinpath (Path dirpath) f) (the rf)) of
           Inl e \<Rightarrow> Inl e
         | Inr rel \<Rightarrow> scan_files rf start dirpath files (track_list @ [str_path rel]))
      else scan_files rf start dirpath files track_list)"
  by (cases rf; hypsubst) (simp_all add: records_relative_to_start_def Let_def)

text \<open>
  Claim C10 (with a root folder configured, the scan starts there and records paths
  relative to it).  In an environment whose directory listings are well formed, a scan
  with the root folder \<open>r\<close> set shows no folder dialog, whatever \<open>reply\<close> is, and
  replaces the library by the sorted relative paths of the audio files below \<open>r\<close>; and
  for every file that the walk from \<open>r\<close> meets, the test that selects the branch
  recording the path relative to the scan's starting directory (the test of
  \<open>scan_files\<close>, by \<open>scan_files_branches\<close>) is false, so that branch is taken only
  when no root folder is set.
\<close>

theorem scan_folder_root_relative:
  assumes "wf_env env" and "root_folder s = Some r" and "wf_path r"
  shows "scan_folder env reply s
           = Inr (s\<lparr>library := sort_key lower (audio_files_below env r),
                    library_model := sort_key lower (audio_files_below env r)\<rparr>,
                  [Information ''Scan Complete''
                     (''Found '' @ str_nat (length (audio_files_below env r))
                        @ '' audio files.'')])
         \<and> (\<forall>(dirpath, files) \<in> set (os_walk env (str_path r)). \<forall>f \<in> set files.
               \<not> records_relative_to_start (root_folder s) (joinpath (Path dirpath) f))"
proof
  have app: "wf_app s" using assms(2,3) by (simp add: wf_app_def)
  have st: "scan_start s reply = Some r" using assms(2) by (simp add: scan_start_def)
  show "scan_folder env reply s
           = Inr (s\<lparr>library := sort_key lower (audio_files_below env r),
                    library_model := sort_key lower (audio_files_below env r)\<rparr>,
                  [Information ''Scan Complete''
                     (''Found '' @ str_nat (length (audio_files_below env r))
                        @ '' audio files.'')])"
    using scan_folder_wf [OF assms(1) app st] assms(2) by simp
  show "\<forall>(dirpath, files) \<in> set (os_walk env (str_path r)). \<forall>f \<in> set files.
          \<not> records_relative_to_start (root_folder s) (joinpath (Path dirpath) f)"
  proof (clarify)
    fix dirpath files f
    assume m: "(dirpath, files) \<in> set (os_walk env (str_path r))" and f: "f \<in> set files"
      and b: "records_relative_to_start (root_folder s) (joinpath (Path dirpath) f)"
    from m obtain es where es: "scandir env (str_path r) = Some es"
      and w: "(dirpath, files) \<in> set (walk (str_path r) es)"
      by (cases "scandir env (str_path r)") (simp_all add: os_walk_def)
    have "wf_entries es" using assms(1) es by (auto simp: wf_env_def)
    moreover have "Path (str_path r) = \<lparr>root = root r, tail = tail r @ []\<rparr>"
      using Path_str_path [OF assms(3)] by simp
    ultimately obtain ds where ds: "Path dirpath = \<lparr>root = root r, tail = tail r @ ds\<rparr>"
      and v: "valid_name f"
      using walk_below [OF w] f by blast
    have "joinpath (Path dirpath) f = \<lparr>root = root r, tail = tail r @ (ds @ [f])\<rparr>"
      by (simp add: joinpath_valid_name [OF v] ds)
    then have "is_relative_to (joinpath (Path dirpath) f) r"
      by (simp only: relative_to_below(2))
    with b assms(2) show False by (simp add: records_relative_to_start_def)
  qed
qed

theorem scan_folder_root_relative_witness:
  "wf_env example_env \<and> root_folder example_app = Some (Path ''/music'') \<and> wf_path (Path ''/music'')
   \<and> scan_folder example_env ''/elsewhere'' example_app
       = Inr (example_app\<lparr>library := [''A/song.mp3'', ''b.flac''],
                          library_model := [''A/song.mp3'', ''b.flac'']\<rparr>,
              [Information ''Scan Complete'' ''Found 2 audio files.''])
   \<and> \<not> records_relative_to_start (root_folder example_app) (joinpath (Path ''/music/A'') ''song.mp3'')"
proof -
  have r: "root_folder example_app = Some (Path ''/music'')"
    by (simp add: example_app_def)
  have m: "(''/music/A'', [''song.mp3'', ''cover.jpg''])
             \<in> set (os_walk example_env (str_path (Path ''/music'')))"
    by (simp only: example_walk) simp
  have f: "''song.mp3'' \<in> set [''song.mp3'', ''cover.jpg'']"
    by simp
  note t = scan_folder_root_relative [OF example_wf(1) r wf_path_Path, of "''/elsewhere''",
      unfolded example_library example_count]
  have 1: "scan_folder example_env ''/elsewhere'' example_app
       = Inr (example_app\<lparr>library := [''A/song.mp3'', ''b.flac''],
                          library_model := [''A/song.mp3'', ''b.flac'']\<rparr>,
              [Information ''Scan Complete'' ''Found 2 audio files.''])"
    using t by (simp only: append.simps)
  have 2: "\<forall>(dirpath, files) \<in> set (os_walk example_env (str_path (Path ''/music''))).
              \<forall>f \<in> set files.
                \<not> records_relative_to_start (root_folder example_app) (joinpath (Path dirpath) f)"
    using t by (rule conjunct2)
  from 2 m f
  have "\<not> records_relative_to_start (root_folder example_app) (joinpath (Path ''/music/A'') ''song.mp3'')"
    by blast
  with 1 r example_wf(1) wf_path_Path show ?thesis by blast
qed

text \<open>
  Claim C4 (after a scan the library holds audio files only, and is replaced
  wholesale).  In an environment whose directory listings are well formed, a scan that
  is not cancelled returns normally; every entry of the new library, lower-cased, ends
  with one of the recognized extensions; the new library is the sorted list of the audio
  files below the directory where the scan starts, and it is the same whatever the
  library held before the scan.
\<close>

theorem scan_folder_audio_only:
  assumes "wf_env env" and "wf_app s" and "scan_start s reply = Some start"
  shows "(case scan_folder env reply s of
            Inl e \<Rightarrow> False
          | Inr (s', evs) \<Rightarrow>
              (\<forall>e \<in> set (library s'). \<exists>ext \<in> set AUDIO_EXTS. suffix ext (lower e))
              \<and> library s' = sort_key lower (audio_files_below env start)
              \<and> (\<forall>old. map_sum id (library \<circ> fst) (scan_folder env reply (s\<lparr>library := old\<rparr>))
                         = Inr (library s')))"
proof -
  define L where "L = sort_key lower (audio_files_below env start)"
  obtain evs where r: "scan_folder env reply s = Inr (s\<lparr>library := L, library_model := L\<rparr>, evs)"
    using scan_folder_wf [OF assms] unfolding L_def by blast
  have lib: "library (s\<lparr>library := L, library_model := L\<rparr>) = L"
    by simp
  have ext: "\<exists>ext \<in> set AUDIO_EXTS. suffix ext (lower e)" if "e \<in> set L" for e
  proof -
    from that have "e \<in> set (audio_files_below env start)" by (simp add: L_def)
    then have "has_audio_ext e" by (rule audio_files_below_ext)
    then show ?thesis by (simp add: has_audio_ext_def endswith_def list_ex_iff)
  qed
  have old: "map_sum id (library \<circ> fst) (scan_folder env reply (s\<lparr>library := old\<rparr>)) = Inr L"
    for old
  proof -
    have 1: "wf_app (s\<lparr>library := old\<rparr>)"
      using assms(2) by (simp add: wf_app_def)
    have 2: "scan_start (s\<lparr>library := old\<rparr>) reply = Some start"
      using assms(3) by (simp add: scan_start_def)
    show ?thesis
      unfolding scan_folder_wf [OF assms(1) 1 2] L_def by simp
  qed
  show ?thesis
    unfolding r sum.case prod.case lib using ext old L_def by blast
qed

theorem scan_folder_audio_only_witness:
  "wf_env example_env \<and> wf_app (example_app\<lparr>root_folder := None\<rparr>)
   \<and> scan_start (example_app\<lparr>root_folder := None\<rparr>) ''/music'' = Some (Path ''/music'')
   \<and> (case scan_folder example_env ''/music'' (example_app\<lparr>root_folder := None\<rparr>) of
         Inl e \<Rightarrow> False
       | Inr (s', evs) \<Rightarrow>
           library s' = [''A/song.mp3'', ''b.flac'']
           \<and> (\<forall>e \<in> set (library s'). \<exists>ext \<in> set AUDIO_EXTS. suffix ext (lower e)))"
proof -
  let ?s = "example_app\<lparr>root_folder := None\<rparr>"
  have a: "wf_app ?s"
    by (simp add: wf_app_def)
  have st: "scan_start ?s ''/music'' = Some (Path ''/music'')"
    by (simp add: scan_start_def)
  note t = scan_folder_audio_only [OF example_wf(1) a st, unfolded example_library]
  have "case scan_folder example_env ''/music'' ?s of
         Inl e \<Rightarrow> False
       | Inr (s', evs) \<Rightarrow>
           library s' = [''A/song.mp3'', ''b.flac'']
           \<and> (\<forall>e \<in> set (library s'). \<exists>ext \<in> set AUDIO_EXTS. suffix ext (lower e))"
  proof (cases "scan_folder example_env ''/music'' ?s")
    case (Inl e)
    with t show ?thesis by (simp only: sum.case)
  next
    case (Inr p)
    obtain s' evs where p: "p = (s', evs)" by (cases p)
    from t have "(\<forall>e \<in> set (library s'). \<exists>ext \<in> set AUDIO_EXTS. suffix ext (lower e))
        \<and> library s' = [''A/song.mp3'', ''b.flac'']"
      unfolding Inr p sum.case prod.case by blast
    then show ?thesis
      unfolding Inr p sum.case prod.case by blast
  qed
  with example_wf(1) a st show ?thesis by blast
qed

lemma scan_folder_unfold:
  "scan_folder env reply s =
     (case scan_start s reply of
        None \<Rightarrow> Inr (s, [GetExistingDirectory ''Select Folder to Scan'' (expanduser_home env)])
      | Some start \<Rightarrow>
          (case scan_dirs (root_folder s) start (os_walk env (str_path start)) [] of
             Inl e \<Rightarrow> Inl e
           | Inr track_list \<Rightarrow>
               Inr (s\<lparr>library := sort_key lower track_list,
                      library_model := sort_key lower track_list\<rparr>,
                    (case root_folder s of
                       None \<Rightarrow> [GetExistingDirectory ''Select Folder to Scan''
                                  (expanduser_home env)]
                     | Some r \<Rightarrow> [])
                    @ [Information ''Scan Complete''
                         (''Found '' @ str_nat (length track_list) @ '' audio files.'')])))"
proof (cases "root_folder s")
  case None
  show ?thesis
  proof (cases "reply = []")
    case True
    with None show ?thesis by (simp add: scan_folder_def scan_start_def)
  next
    case False
    with None show ?thesis
      by (cases "scan_dirs None (Path reply) (os_walk env (str_path (Path reply))) []")
         (simp_all add: scan_folder_def scan_start_def Let_def populate_library_def
            populate_rows_eq)
  qed
next
  case (Some r)
  then show ?thesis
    by (cases "scan_dirs (Some r) r (os_walk env (str_path r)) []")
       (simp_all add: scan_folder_def scan_start_def Let_def populate_library_def
          populate_rows_eq)
qed

text \<open>
  Claim C5 (after a scan the library is sorted case-insensitively).  Whenever a scan
  that is not cancelled returns, the lower-cased entries of the new library are in
  ascending order, that is, every entry is at most its successor when both are
  lower-cased.  In an environment whose directory listings are well formed the scan
  does return.
\<close>

theorem scan_folder_library_sorted:
  "(scan_folder env reply s = Inr (s', evs) \<and> scan_start s reply \<noteq> None \<longrightarrow>
      sorted (map lower (library s'))
      \<and> (\<forall>i. Suc i < length (library s') \<longrightarrow> lower (library s' ! i) \<le> lower (library s' ! Suc i)))
   \<and> (wf_env env \<and> wf_app s \<longrightarrow> \<not> isl (scan_folder env reply s))"
proof (intro conjI impI)
  assume a: "scan_folder env reply s = Inr (s', evs) \<and> scan_start s reply \<noteq> None"
  then obtain start where st: "scan_start s reply = Some start" by blast
  have "\<exists>tl. library s' = sort_key lower tl"
  proof (cases "scan_dirs (root_folder s) start (os_walk env (str_path start)) []")
    case (Inl e)
    with a st show ?thesis by (simp add: scan_folder_unfold)
  next
    case (Inr tl)
    with a st have "s' = s\<lparr>library := sort_key lower tl, library_model := sort_key lower tl\<rparr>"
      by (simp add: scan_folder_unfold)
    then have "library s' = sort_key lower tl" by simp
    then show ?thesis by blast
  qed
  then obtain tl where "library s' = sort_key lower tl" by blast
  then show sorted: "sorted (map lower (library s'))"
    by (simp only: sorted_sort_key)
  show "\<forall>i. Suc i < length (library s') \<longrightarrow> lower (library s' ! i) \<le> lower (library s' ! Suc i)"
  proof (intro allI impI)
    fix i assume i: "Suc i < length (library s')"
    then have "Suc i < length (map lower (library s'))" by simp
    with sorted have "map lower (library s') ! i \<le> map lower (library s') ! Suc i"
      unfolding sorted_iff_nth_Suc by blast
    with i show "lower (library s' ! i) \<le> lower (library s' ! Suc i)" by simp
  qed
next
  assume w: "wf_env env \<and> wf_app s"
  show "\<not> isl (scan_folder env reply s)"
  proof (cases "scan_start s reply")
    case None
    then show ?thesis by (simp add: scan_folder_unfold)
  next
    case (Some start)
    from w have "wf_env env" "wf_app s" by blast+
    from scan_folder_wf [OF this Some] show ?thesis by simp
  qed
qed


theorem scan_folder_library_sorted_witness:
  "scan_folder example_env [] (example_app\<lparr>library := [], library_model := []\<rparr>)
     = Inr (example_app, [Information ''Scan Complete'' ''Found 2 audio files.''])
   \<and> scan_start (example_app\<lparr>library := [], library_model := []\<rparr>) [] \<noteq> None
   \<and> wf_env example_env \<and> wf_app (example_app\<lparr>library := [], library_model := []\<rparr>)
   \<and> sorted (map lower (library example_app))
   \<and> lower (library example_app ! 0) \<le> lower (library example_app ! Suc 0)"
proof -
  define s0 where "s0 = example_app\<lparr>library := [], library_model := []\<rparr>"
  have rf: "root_folder s0 = Some (Path ''/music'')"
    by (simp add: s0_def example_app_def)
  have st: "scan_start s0 [] = Some (Path ''/music'')"
    by (simp add: scan_start_def rf)
  have a: "wf_app s0"
    by (simp add: wf_app_def rf wf_path_Path)
  have restore: "s0\<lparr>library := [''A/song.mp3'', ''b.flac''],
                    library_model := [''A/song.mp3'', ''b.flac'']\<rparr> = example_app"
    by (simp add: s0_def example_app_def)
  have e: "scan_folder example_env [] s0
             = Inr (example_app, [Information ''Scan Complete'' ''Found 2 audio files.''])"
    using scan_folder_wf [OF example_wf(1) a st]
    unfolding example_library example_count restore rf by (simp only: option.case append.simps)
  have st': "scan_start s0 [] \<noteq> None"
    by (simp only: st) simp
  note t = scan_folder_library_sorted
      [of example_env "[]" s0 example_app
          "[Information ''Scan Complete'' ''Found 2 audio files.'']"]
  from t e st' have srt: "sorted (map lower (library example_app))"
    by blast
  from t e st' have adj: "\<forall>i. Suc i < length (library example_app)
            \<longrightarrow> lower (library example_app ! i) \<le> lower (library example_app ! Suc i)"
    by blast
  have len: "Suc 0 < length (library example_app)"
    by (simp add: example_app_def)
  from adj len have "lower (library example_app ! 0) \<le> lower (library example_app ! Suc 0)"
    by blast
  with e st' a example_wf(1) srt show ?thesis
    unfolding s0_def by blast
qed

end
